theory Spec2Isabelle
  imports Complex_Main "HOL-Library.Sublist"
begin

text \<open>
  A shallow embedding of the core of the content optimizer (\<open>src/index.tsx\<close> and its
  schema generator): the response cache, the retrying invoker, the word-count gate, the
  four link functions, \<open>extractJson\<close>, and the finalize stage with the normalisation and
  the structured data it appends. Each function of the source is a function here under
  its own name; an exception is a value \<open>Inl e\<close> of a sum type, the clock, the random
  numbers and the platform's URL class are inputs, and a regular expression is the
  function that matches it. The properties follow the definitions, component by
  component.
\<close>

section \<open>Strings of the source language\<close>

text \<open>
  A JavaScript string is a sequence of UTF-16 code units. The model uses \<^typ>\<open>string\<close>,
  whose characters are the code units U+0000 to U+00FF, and gives the character classes
  of the source their meaning on that range: \<open>\s\<close> and \<open>trim()\<close> remove TAB, LF, VT, FF,
  CR, SPACE and NO-BREAK SPACE; \<open>toLowerCase()\<close> maps A-Z and the upper-case letters of
  U+00C0..U+00DE (all but the multiplication sign U+00D7) to the letter 32 places on.
\<close>

definition isWhitespace :: "char \<Rightarrow> bool" where
  "isWhitespace c \<longleftrightarrow>
     c = CHR 0x09 \<or> c = CHR 0x0A \<or> c = CHR 0x0B \<or> c = CHR 0x0C \<or> c = CHR 0x0D \<or>
     c = CHR 0x20 \<or> c = CHR 0xA0"

definition isDigit :: "char \<Rightarrow> bool" where
  "isDigit c \<longleftrightarrow> (let n = (of_char c :: nat) in 48 \<le> n \<and> n \<le> 57)"

definition isUpperChar :: "char \<Rightarrow> bool" where
  "isUpperChar c \<longleftrightarrow>
     (let n = (of_char c :: nat)
      in (65 \<le> n \<and> n \<le> 90) \<or> (192 \<le> n \<and> n \<le> 222 \<and> n \<noteq> 215))"

definition isLowerChar :: "char \<Rightarrow> bool" where
  "isLowerChar c \<longleftrightarrow>
     (let n = (of_char c :: nat)
      in (97 \<le> n \<and> n \<le> 122) \<or> (224 \<le> n \<and> n \<le> 254 \<and> n \<noteq> 247))"

text \<open>An upper-case letter and its lower-case form differ in bit 5 (value 32) only.\<close>

definition toLowerChar :: "char \<Rightarrow> char" where
  "toLowerChar c =
     (if isUpperChar c
      then (case c of Char b0 b1 b2 b3 b4 b5 b6 b7 \<Rightarrow> Char b0 b1 b2 b3 b4 True b6 b7)
      else c)"

definition toLowerCase :: "string \<Rightarrow> string" where
  "toLowerCase s = map toLowerChar s"

text \<open>
  The canonical form a regular expression with the \<open>i\<close> flag compares characters in: the
  upper-case form where it is one code unit of the same range, the character itself
  otherwise.
\<close>

definition canonicalize :: "char \<Rightarrow> char" where
  "canonicalize c =
     (if isLowerChar c
      then (case c of Char b0 b1 b2 b3 b4 b5 b6 b7 \<Rightarrow> Char b0 b1 b2 b3 b4 False b6 b7)
      else c)"

text \<open>\<open>s.includes(sub)\<close>: \<open>sub\<close> occurs in \<open>s\<close> as a contiguous run.\<close>

fun includesStr :: "string \<Rightarrow> string \<Rightarrow> bool" where
  "includesStr [] sub = (sub = [])"
| "includesStr (c # cs) sub = (prefix sub (c # cs) \<or> includesStr cs sub)"

definition trim :: "string \<Rightarrow> string" where
  "trim s = rev (dropWhile isWhitespace (rev (dropWhile isWhitespace s)))"

text \<open>The value of a run of decimal digits, most significant first.\<close>

definition digitsValue :: "string \<Rightarrow> nat" where
  "digitsValue ds = foldl (\<lambda>acc d. 10 * acc + (of_char d - 48)) 0 ds"

text \<open>
  \<open>parseInt(s, 10)\<close>: leading white space and one sign are skipped, the longest run of
  digits is read; \<open>None\<close> stands for \<open>NaN\<close> (no digit there).
\<close>

definition parseInt10 :: "string \<Rightarrow> int option" where
  "parseInt10 s =
     (let t = dropWhile isWhitespace s;
          neg = (case t of [] \<Rightarrow> False | c # _ \<Rightarrow> c = CHR ''-'');
          u = (case t of [] \<Rightarrow> [] | c # r \<Rightarrow> if c = CHR ''-'' \<or> c = CHR ''+'' then r else t);
          ds = takeWhile isDigit u
      in if ds = [] then None
         else Some (if neg then - int (digitsValue ds) else int (digitsValue ds)))"

text \<open>The decimal numeral a template literal prints for a non-negative integer.\<close>

function decimal :: "nat \<Rightarrow> string" where
  "decimal n =
     (if n < 10 then [''0123456789'' ! n]
      else decimal (n div 10) @ [''0123456789'' ! (n mod 10)])"
  by pat_completeness auto
termination
  by (relation "measure (\<lambda>n. n)") auto

declare decimal.simps [simp del]


section \<open>Response cache (class ContentCache)\<close>

text \<open>
  The cache is a \<open>Map\<close> from keys to items \<open>{data, timestamp}\<close>. \<open>Date.now()\<close> is an input of
  each operation; \<open>get\<close> returns the value read (\<open>None\<close> is JavaScript's \<open>null\<close>) together
  with the store it leaves behind.
\<close>

record 'v cache_item =
  data :: 'v
  timestamp :: int

type_synonym 'v content_cache = "string \<rightharpoonup> 'v cache_item"

definition TTL :: int where
  "TTL = 3600000"

definition ContentCache_set :: "int \<Rightarrow> string \<Rightarrow> 'v \<Rightarrow> 'v content_cache \<Rightarrow> 'v content_cache" where
  "ContentCache_set now key d cache = cache(key \<mapsto> \<lparr>data = d, timestamp = now\<rparr>)"

definition ContentCache_get :: "int \<Rightarrow> string \<Rightarrow> 'v content_cache \<Rightarrow> 'v option \<times> 'v content_cache" where
  "ContentCache_get now key cache =
     (case cache key of
        Some item \<Rightarrow> if now - timestamp item < TTL then (Some (data item), cache) else (None, cache)
      | None \<Rightarrow> (None, cache))"


section \<open>Retrying invoker (callAiWithRetry)\<close>

text \<open>
  What the function reads of a thrown error: its \<open>message\<close>, its numeric \<open>status\<close>, and
  the \<open>retry-after\<close> header found under \<open>error.headers\<close> or under
  \<open>error.response.headers\<close>. A missing property is \<open>None\<close>.
\<close>

record ai_error =
  message :: "string option"
  status :: "nat option"
  headers_retry_after :: "string option"
  response_retry_after :: "string option"

text \<open>
  The surroundings of a run: the date parser (\<open>new Date(header).getTime()\<close>, \<open>None\<close> for
  an invalid date), the clock read at a given attempt, and the whole milliseconds of
  \<open>Math.random() * 1000\<close> drawn at a given attempt (\<open>setTimeout\<close> drops the fraction).
\<close>

record retry_env =
  date_parse :: "string \<Rightarrow> int option"
  clock :: "nat \<Rightarrow> int"
  jitter :: "nat \<Rightarrow> int"

record 'a retry_result =
  outcome :: "ai_error + 'a"
  invocations :: nat
  waits :: "int list"

definition errorMessage :: "ai_error \<Rightarrow> string" where
  "errorMessage e = toLowerCase (case message e of Some m \<Rightarrow> m | None \<Rightarrow> [])"

text \<open>\<open>/\[(\d{3})[^\]]*\]/\<close>: the first \<open>[\<close> followed by three digits with a \<open>]\<close> further on.\<close>

fun statusMatch :: "string \<Rightarrow> string option" where
  "statusMatch [] = None"
| "statusMatch (c # cs) =
     (if c = CHR ''['' \<and> 3 \<le> length cs \<and> list_all isDigit (take 3 cs) \<and> CHR '']'' \<in> set (drop 3 cs)
      then Some (take 3 cs)
      else statusMatch cs)"

definition truthyNat :: "nat option \<Rightarrow> bool" where
  "truthyNat v = (case v of Some n \<Rightarrow> n \<noteq> 0 | None \<Rightarrow> False)"

definition truthyString :: "string option \<Rightarrow> bool" where
  "truthyString v = (case v of Some s \<Rightarrow> s \<noteq> [] | None \<Rightarrow> False)"

definition statusCode :: "ai_error \<Rightarrow> nat option" where
  "statusCode e =
     (if truthyNat (status e) then status e
      else (case statusMatch (errorMessage e) of Some ds \<Rightarrow> Some (digitsValue ds) | None \<Rightarrow> None))"

definition isNonRetriableClientError :: "ai_error \<Rightarrow> bool" where
  "isNonRetriableClientError e =
     (case statusCode e of
        Some n \<Rightarrow> n \<noteq> 0 \<and> 400 \<le> n \<and> n < 500 \<and> n \<noteq> 429
      | None \<Rightarrow> False)"

definition isContextLengthError :: "ai_error \<Rightarrow> bool" where
  "isContextLengthError e =
     (includesStr (errorMessage e) ''context length'' \<or> includesStr (errorMessage e) ''token limit'')"

definition isInvalidApiKeyError :: "ai_error \<Rightarrow> bool" where
  "isInvalidApiKeyError e = includesStr (errorMessage e) ''api key not valid''"

definition exponentialBackoff :: "retry_env \<Rightarrow> int \<Rightarrow> nat \<Rightarrow> int" where
  "exponentialBackoff env initialDelay attempt = initialDelay * 2 ^ attempt + jitter env attempt"

definition retryDelay :: "retry_env \<Rightarrow> int \<Rightarrow> nat \<Rightarrow> ai_error \<Rightarrow> int" where
  "retryDelay env initialDelay attempt e =
     (if status e = Some 429 \<or> statusCode e = Some 429
      then (let retryAfterHeader =
                  (if truthyString (headers_retry_after e) then headers_retry_after e
                   else response_retry_after e)
            in if truthyString retryAfterHeader
               then (case parseInt10 (the retryAfterHeader) of
                       Some retryAfterSeconds \<Rightarrow> retryAfterSeconds * 1000 + 500
                     | None \<Rightarrow>
                         (case date_parse env (the retryAfterHeader) of
                            Some retryDate \<Rightarrow> retryDate - clock env attempt + 500
                          | None \<Rightarrow> exponentialBackoff env initialDelay attempt))
               else exponentialBackoff env initialDelay attempt)
      else exponentialBackoff env initialDelay attempt)"

definition allRetriesFailed :: ai_error where
  "allRetriesFailed =
     \<lparr>message = Some ''AI call failed after all retries.'', status = None,
      headers_retry_after = None, response_retry_after = None\<rparr>"

text \<open>
  The \<open>for\<close> loop. \<open>apiCall k\<close> is what the \<open>k\<close>-th invocation of the wrapped call settles
  to (counted from 0): \<open>Inr\<close> a value, \<open>Inl\<close> a thrown error. The loop invokes the call
  once per attempt, so the attempt number is the invocation number.
\<close>

function callAiWithRetry_from ::
  "retry_env \<Rightarrow> (nat \<Rightarrow> ai_error + 'a) \<Rightarrow> nat \<Rightarrow> int \<Rightarrow> nat \<Rightarrow> int list \<Rightarrow> 'a retry_result" where
  "callAiWithRetry_from env apiCall maxRetries initialDelay attempt ws =
     (if attempt < maxRetries
      then (case apiCall attempt of
              Inr v \<Rightarrow> \<lparr>outcome = Inr v, invocations = attempt + 1, waits = ws\<rparr>
            | Inl error \<Rightarrow>
                if isNonRetriableClientError error \<or> isContextLengthError error \<or> isInvalidApiKeyError error
                then \<lparr>outcome = Inl error, invocations = attempt + 1, waits = ws\<rparr>
                else if attempt = maxRetries - 1
                then \<lparr>outcome = Inl error, invocations = attempt + 1, waits = ws\<rparr>
                else callAiWithRetry_from env apiCall maxRetries initialDelay (attempt + 1)
                       (ws @ [retryDelay env initialDelay attempt error]))
      else \<lparr>outcome = Inl allRetriesFailed, invocations = attempt, waits = ws\<rparr>)"
  by pat_completeness auto
termination
  by (relation "measure (\<lambda>(env, apiCall, maxRetries, initialDelay, attempt, ws). maxRetries - attempt)") auto

definition callAiWithRetry ::
  "retry_env \<Rightarrow> (nat \<Rightarrow> ai_error + 'a) \<Rightarrow> nat \<Rightarrow> int \<Rightarrow> 'a retry_result" where
  "callAiWithRetry env apiCall maxRetries initialDelay =
     callAiWithRetry_from env apiCall maxRetries initialDelay 0 []"


section \<open>Word-count gate (enforceWordCount and the finalize stage)\<close>

text \<open>
  \<open>enforceWordCount\<close> takes any JavaScript value. The model distinguishes \<open>undefined\<close>,
  \<open>null\<close>, a primitive string, a \<open>String\<close> wrapper object (\<open>typeof\<close> gives \<open>object\<close>, and it
  inherits \<open>replace\<close>), and \<open>NoReplace\<close>: any other value without a callable \<open>replace\<close>
  property (a number, a boolean, a plain object, an array).
\<close>

datatype content_arg = Undefined | Null | Str string | StringObject string | NoReplace

text \<open>
  The exceptions of the model: the platform's \<open>TypeError\<close>, the repository's
  \<open>ContentTooShortError(message, content, wordCount)\<close>, and a plain \<open>Error(message)\<close>.
\<close>

datatype js_error =
    TypeError
  | ContentTooShortError string string nat
  | Error string

text \<open>
  What \<open>enforceWordCount\<close> writes to the console: the line with the count and the target
  range, and the warning with the number of words over the target.
\<close>

datatype console_event = Log_word_count nat nat nat | Warn_over_target nat

text \<open>
  \<open>.replace(/<[^>]*>/g, ' ')\<close>: a \<open><\<close> with a \<open>>\<close> somewhere behind it is replaced,
  together with everything up to the first such \<open>>\<close>, by one space.
\<close>

function stripTags :: "string \<Rightarrow> string" where
  "stripTags [] = []"
| "stripTags (c # cs) =
     (if c = CHR ''<'' \<and> CHR ''>'' \<in> set cs
      then CHR '' '' # stripTags (tl (dropWhile (\<lambda>x. x \<noteq> CHR ''>'') cs))
      else c # stripTags cs)"
  by pat_completeness auto
termination
  by (relation "measure length")
     (auto simp: less_Suc_eq_le intro: le_trans [OF diff_le_self length_dropWhile_le])

text \<open>\<open>.replace(/\s+/g, ' ')\<close>: every run of white space becomes one space.\<close>

function collapseWhitespace :: "string \<Rightarrow> string" where
  "collapseWhitespace [] = []"
| "collapseWhitespace (c # cs) =
     (if isWhitespace c then CHR '' '' # collapseWhitespace (dropWhile isWhitespace cs)
      else c # collapseWhitespace cs)"
  by pat_completeness auto
termination
  by (relation "measure length") (auto simp: less_Suc_eq_le length_dropWhile_le)

text \<open>
  \<open>.split(/\s+/)\<close>: the pieces between the runs of white space. A run at either end
  leaves an empty piece there, and the empty string gives one empty piece.
\<close>

function splitWhitespace_from :: "string \<Rightarrow> string \<Rightarrow> string list" where
  "splitWhitespace_from piece [] = [piece]"
| "splitWhitespace_from piece (c # cs) =
     (if isWhitespace c then piece # splitWhitespace_from [] (dropWhile isWhitespace cs)
      else splitWhitespace_from (piece @ [c]) cs)"
  by pat_completeness auto
termination
  by (relation "measure (\<lambda>(piece, s). length s)") (auto simp: less_Suc_eq_le length_dropWhile_le)

definition splitWhitespace :: "string \<Rightarrow> string list" where
  "splitWhitespace s = splitWhitespace_from [] s"

text \<open>The first three lines of \<open>enforceWordCount\<close>, for a string.\<close>

definition countWords :: "string \<Rightarrow> nat" where
  "countWords content =
     (let textOnly = trim (collapseWhitespace (stripTags content));
          words = filter (\<lambda>w. 0 < length w) (splitWhitespace textOnly)
      in length words)"

text \<open>
  The function in the order of its statements: the \<open>replace\<close> calls (a \<open>TypeError\<close> where
  the argument has no such method), the console line, the guard
  \<open>!content || typeof content !== 'string'\<close>, the warning, the count.
\<close>

definition enforceWordCount ::
  "content_arg \<Rightarrow> nat \<Rightarrow> nat \<Rightarrow> console_event list \<times> (js_error + nat)" where
  "enforceWordCount content minWords maxWords =
     (case content of
        Undefined \<Rightarrow> ([], Inl TypeError)
      | Null \<Rightarrow> ([], Inl TypeError)
      | NoReplace \<Rightarrow> ([], Inl TypeError)
      | Str s \<Rightarrow>
          (let wordCount = countWords s;
               logged = [Log_word_count wordCount minWords maxWords]
           in if s = [] then (logged, Inl (ContentTooShortError ''Content is undefined or not a string'' [] 0))
              else if maxWords < wordCount
              then (logged @ [Warn_over_target (wordCount - maxWords)], Inr wordCount)
              else (logged, Inr wordCount))
      | StringObject s \<Rightarrow>
          ([Log_word_count (countWords s) minWords maxWords],
           Inl (ContentTooShortError ''Content is undefined or not a string'' [] 0)))"



subsection \<open>The count in the words of the specification\<close>

text \<open>
  The specification describes the count as the number of tokens, delimited by white
  space, of the text with its tags stripped. \<open>tagStripped\<close> and \<open>tokenCount\<close> say this
  directly, as two scans that read one character at a time: a tag begins at a \<open><\<close> that
  has a \<open>>\<close> somewhere behind it and ends at the first such \<open>>\<close>, and it separates tokens
  as a blank does; a token begins at a character that is not white space and is not
  preceded by one of its kind. They are compared with \<open>countWords\<close> below.
\<close>

fun tagStripped :: "bool \<Rightarrow> string \<Rightarrow> string" where
  "tagStripped insideTag [] = []"
| "tagStripped False (c # cs) =
     (if c = CHR ''<'' \<and> CHR ''>'' \<in> set cs then CHR '' '' # tagStripped True cs
      else c # tagStripped False cs)"
| "tagStripped True (c # cs) =
     (if c = CHR ''>'' then tagStripped False cs else tagStripped True cs)"

fun tokenCount :: "bool \<Rightarrow> string \<Rightarrow> nat" where
  "tokenCount insideToken [] = 0"
| "tokenCount insideToken (c # cs) =
     (if isWhitespace c then tokenCount False cs
      else (if insideToken then 0 else 1) + tokenCount True cs)"

definition tagStrippedTokenCount :: "string \<Rightarrow> nat" where
  "tagStrippedTokenCount s = tokenCount False (tagStripped False s)"


section \<open>Link integrity subsystem\<close>

text \<open>
  A page of the sitemap inventory, as the link functions read it: \<open>id\<close> (the full URL),
  \<open>title\<close> and \<open>slug\<close>. The inventory is an \<open>any[]\<close>; a missing property is \<open>None\<close>, and a
  property is truthy when it is a non-empty string.
\<close>

record page =
  page_id :: "string option"
  page_title :: "string option"
  page_slug :: "string option"

definition dquote :: char where
  "dquote = CHR 0x22"

definition notQuote :: "char \<Rightarrow> bool" where
  "notQuote c \<longleftrightarrow> c \<noteq> dquote"

definition notClose :: "char \<Rightarrow> bool" where
  "notClose c \<longleftrightarrow> c \<noteq> CHR '']''"

definition stripPrefix :: "string \<Rightarrow> string \<Rightarrow> string option" where
  "stripPrefix p s = (if prefix p s then Some (drop (length p) s) else None)"

text \<open>
  One or more white-space characters (\<open>\s+\<close>) and then the literal \<open>name="\<close>, a non-empty
  run of characters other than the double quote (\<open>[^"]+\<close>), and the closing quote. Both
  quantifiers are greedy and what follows each cannot start inside its run, so there is
  one way to match. The result is the attribute's value and the rest of the input.
\<close>

definition matchAttribute :: "string \<Rightarrow> string \<Rightarrow> (string \<times> string) option" where
  "matchAttribute name s =
     (case s of
        [] \<Rightarrow> None
      | c # cs \<Rightarrow>
          if \<not> isWhitespace c then None
          else (case stripPrefix (name @ [CHR ''='', dquote]) (dropWhile isWhitespace cs) of
                  None \<Rightarrow> None
                | Some r \<Rightarrow>
                    (let v = takeWhile notQuote r
                     in if v = [] \<or> dropWhile notQuote r = [] then None
                        else Some (v, tl (dropWhile notQuote r)))))"

text \<open>
  \<open>/\[INTERNAL_LINK\s+slug="([^"]+)"\s+text="([^"]+)"\]/\<close> tried at the start of the input:
  the two captured groups and the input after the match.
\<close>

definition matchPlaceholder :: "string \<Rightarrow> (string \<times> string \<times> string) option" where
  "matchPlaceholder s =
     (case stripPrefix ''[INTERNAL_LINK'' s of
        None \<Rightarrow> None
      | Some r1 \<Rightarrow>
          (case matchAttribute ''slug'' r1 of
             None \<Rightarrow> None
           | Some (slugv, r2) \<Rightarrow>
               (case matchAttribute ''text'' r2 of
                  None \<Rightarrow> None
                | Some (textv, r3) \<Rightarrow>
                    (case r3 of
                       [] \<Rightarrow> None
                     | c # rest \<Rightarrow> if c = CHR '']'' then Some (slugv, textv, rest) else None))))"

text \<open>
  The scan of a global regular expression over the content: at each position either the
  pattern matches, and the scan goes on behind the match, or the character is passed
  over. A match keeps its whole text and its two groups.
\<close>

datatype segment = Lit char | Match string string string

function placeholderSegments :: "string \<Rightarrow> segment list" where
  "placeholderSegments [] = []"
| "placeholderSegments (c # cs) =
     (case matchPlaceholder (c # cs) of
        Some (slugv, textv, rest) \<Rightarrow>
          Match (take (length (c # cs) - length rest) (c # cs)) slugv textv # placeholderSegments rest
      | None \<Rightarrow> Lit c # placeholderSegments cs)"
  by pat_completeness auto

lemma stripPrefix_length: "stripPrefix p s = Some r \<Longrightarrow> length r + length p = length s"
  by (auto simp: stripPrefix_def prefix_def split: if_splits)

lemma matchAttribute_length: "matchAttribute name s = Some (v, r) \<Longrightarrow> length r < length s"
proof -
  assume a: "matchAttribute name s = Some (v, r)"
  then obtain c cs r0 where s: "s = c # cs"
    and p: "stripPrefix (name @ [CHR ''='', dquote]) (dropWhile isWhitespace cs) = Some r0"
    and r: "r = tl (dropWhile notQuote r0)"
    by (auto simp: matchAttribute_def Let_def split: list.splits if_splits option.splits)
  have "length r \<le> length r0" using r
    by (metis diff_le_self le_trans length_dropWhile_le length_tl)
  also have "\<dots> \<le> length (dropWhile isWhitespace cs)"
    using stripPrefix_length [OF p] by simp
  also have "\<dots> \<le> length cs" by (rule length_dropWhile_le)
  finally show ?thesis using s by simp
qed

lemma matchPlaceholder_length:
  "matchPlaceholder s = Some (a, b, rest) \<Longrightarrow> length rest < length s"
proof -
  assume m: "matchPlaceholder s = Some (a, b, rest)"
  then obtain r1 r2 r3 where 1: "stripPrefix ''[INTERNAL_LINK'' s = Some r1"
    and 2: "matchAttribute ''slug'' r1 = Some (a, r2)"
    and 3: "matchAttribute ''text'' r2 = Some (b, r3)"
    and 4: "r3 = CHR '']'' # rest"
    by (auto simp: matchPlaceholder_def split: option.splits list.splits if_splits)
  from stripPrefix_length [OF 1] matchAttribute_length [OF 2] matchAttribute_length [OF 3] 4
  show ?thesis by simp
qed

termination placeholderSegments
  by (relation "measure length") (auto dest: matchPlaceholder_length)

definition isMatch :: "segment \<Rightarrow> bool" where
  "isMatch seg = (case seg of Lit c \<Rightarrow> False | Match m slugv textv \<Rightarrow> True)"

text \<open>\<open>text.replace(/"/g, '&quot;')\<close>.\<close>

definition sanitizeText :: "string \<Rightarrow> string" where
  "sanitizeText t = concat (map (\<lambda>c. if c = dquote then ''&quot;'' else [c]) t)"

definition placeholder :: "string \<Rightarrow> string \<Rightarrow> string" where
  \<open>placeholder slugv textv = ''[INTERNAL_LINK slug="'' @ slugv @ ''" text="'' @ textv @ ''"]''\<close>

subsection \<open>Repair (validateAndRepairInternalLinks)\<close>

text \<open>
  \<open>pagesBySlug.has(slug)\<close> for the \<open>Map\<close> built from every page's \<open>slug\<close> property.
\<close>

definition pagesBySlug_has :: "page list \<Rightarrow> string \<Rightarrow> bool" where
  "pagesBySlug_has availablePages slugv \<longleftrightarrow> Some slugv \<in> set (map page_slug availablePages)"

text \<open>\<open>s.split(/\s+/).filter(w => w.length > 2)\<close>.\<close>

definition meaningfulWords :: "string \<Rightarrow> string list" where
  "meaningfulWords s = filter (\<lambda>w. 2 < length w) (splitWhitespace s)"

text \<open>
  The score of one page against the lower-cased anchor text; \<open>None\<close> where the loop body
  ends in \<open>continue\<close> before the comparison with the best score so far. The source
  computes in IEEE doubles; the model computes the same expressions exactly.
\<close>

definition pageScore :: "string \<Rightarrow> page \<Rightarrow> rat option" where
  "pageScore anchorTextLower p =
     (if \<not> truthyString (page_slug p) \<or> \<not> truthyString (page_title p) then None
      else (let titleLower = toLowerCase (the (page_title p));
                exact = (if titleLower = anchorTextLower then 100 else 0);
                anchorInTitle = (if includesStr titleLower anchorTextLower then 60 else 0);
                titleInAnchor = (if includesStr anchorTextLower titleLower then 50 else 0);
                titleWords = meaningfulWords titleLower
            in if titleWords = [] then None
               else (let anchorWordSet = remdups (meaningfulWords anchorTextLower);
                         titleWordSet = remdups titleWords;
                         intersection = filter (\<lambda>w. w \<in> set titleWordSet) anchorWordSet;
                         anchorMatchPercentage =
                           (of_nat (length intersection) / of_nat (length anchorWordSet)) * 100;
                         titleMatchPercentage =
                           (of_nat (length intersection) / of_nat (length titleWordSet)) * 100;
                         overlapScore =
                           (if 0 < length intersection
                            then (anchorMatchPercentage + titleMatchPercentage) / 2 else 0)
                     in Some (exact + anchorInTitle + titleInAnchor + overlapScore))))"

fun bestMatchLoop :: "string \<Rightarrow> page list \<Rightarrow> page option \<times> rat \<Rightarrow> page option \<times> rat" where
  "bestMatchLoop anchorTextLower [] best = best"
| "bestMatchLoop anchorTextLower (p # ps) (bestMatch, highestScore) =
     (case pageScore anchorTextLower p of
        None \<Rightarrow> bestMatchLoop anchorTextLower ps (bestMatch, highestScore)
      | Some currentScore \<Rightarrow>
          if highestScore < currentScore
          then bestMatchLoop anchorTextLower ps (Some p, currentScore)
          else bestMatchLoop anchorTextLower ps (bestMatch, highestScore))"

definition repairPlaceholder :: "page list \<Rightarrow> string \<Rightarrow> string \<Rightarrow> string \<Rightarrow> string" where
  "repairPlaceholder availablePages m slugv textv =
     (if pagesBySlug_has availablePages slugv then m
      else (case bestMatchLoop (toLowerCase textv) availablePages (None, - 1) of
              (Some bestMatch, highestScore) \<Rightarrow>
                if 50 < highestScore
                then placeholder (the (page_slug bestMatch)) (sanitizeText textv)
                else textv
            | (None, highestScore) \<Rightarrow> textv))"

definition validateAndRepairInternalLinks :: "string \<Rightarrow> page list \<Rightarrow> string" where
  "validateAndRepairInternalLinks content availablePages =
     (if content = [] \<or> availablePages = [] then content
      else concat (map (\<lambda>seg. case seg of
                                 Lit c \<Rightarrow> [c]
                               | Match m slugv textv \<Rightarrow> repairPlaceholder availablePages m slugv textv)
                     (placeholderSegments content)))"

subsection \<open>Quota enforcement (enforceInternalLinkQuota)\<close>

text \<open>\<open>s.split(' ')\<close> and \<open>a.join(' ')\<close>.\<close>

fun splitOn :: "char \<Rightarrow> string \<Rightarrow> string \<Rightarrow> string list" where
  "splitOn sep piece [] = [piece]"
| "splitOn sep piece (c # cs) =
     (if c = sep then piece # splitOn sep [] cs else splitOn sep (piece @ [c]) cs)"

definition splitSpace :: "string \<Rightarrow> string list" where
  "splitSpace s = splitOn (CHR '' '') [] s"

fun joinSpace :: "string list \<Rightarrow> string" where
  "joinSpace [] = []"
| "joinSpace [w] = w"
| "joinSpace (w # ws) = w @ CHR '' '' # joinSpace ws"

text \<open>
  \<open>.filter((v, i, a) => a.indexOf(v) === i && v.length > 10)\<close>: a term stays when it does not
  occur earlier in the array and has more than ten characters.
\<close>

fun keepTerms :: "string list \<Rightarrow> string list \<Rightarrow> string list" where
  "keepTerms earlier [] = []"
| "keepTerms earlier (v # vs) =
     (if v \<notin> set earlier \<and> 10 < length v then v # keepTerms (earlier @ [v]) vs
      else keepTerms (earlier @ [v]) vs)"

text \<open>The search terms of a title, longest first (the sort is stable).\<close>

definition searchTerms :: "string \<Rightarrow> string list" where
  "searchTerms t =
     (let ws = splitSpace t;
          terms = [t] @ (if 4 < length ws then [joinSpace (butlast ws)] else [])
                      @ (if 3 < length ws then [joinSpace (tl ws)] else [])
      in sort_key (\<lambda>v. - int (length v)) (keepTerms [] terms))"

text \<open>
  The search expression \<open>(?<=[>\s\n\t(])(term)(?=[<\s\n\t.,!?)])\<close> with the flags \<open>gi\<close>. Every
  character that is special in a pattern is escaped by \<open>escapeRegExp\<close>, so the term
  stands for itself, compared in canonical (case-folded) form. \<open>prev\<close> is the character
  in front of the position tried, if there is one.
\<close>

definition isBefore :: "char \<Rightarrow> bool" where
  "isBefore c \<longleftrightarrow> c = CHR ''>'' \<or> isWhitespace c \<or> c = CHR ''(''"

definition isAfter :: "char \<Rightarrow> bool" where
  "isAfter c \<longleftrightarrow>
     c = CHR ''<'' \<or> isWhitespace c \<or> c = CHR ''.'' \<or> c = CHR '','' \<or> c = CHR ''!'' \<or>
     c = CHR ''?'' \<or> c = CHR '')''"

definition termMatchesAt :: "char option \<Rightarrow> string \<Rightarrow> string \<Rightarrow> bool" where
  "termMatchesAt prev term s \<longleftrightarrow>
     (case prev of None \<Rightarrow> False | Some b \<Rightarrow> isBefore b) \<and>
     length term \<le> length s \<and>
     map canonicalize (take (length term) s) = map canonicalize term \<and>
     (case drop (length term) s of [] \<Rightarrow> False | a # r \<Rightarrow> isAfter a)"

text \<open>
  \<open>newContent.replace(searchRegex, callback)\<close>, whose callback rewrites the first match
  only: the content with that match wrapped in a new placeholder, or \<open>None\<close> when the
  expression matches nowhere (\<open>linkPlaced\<close> stays false).
\<close>

fun injectFirst :: "string \<Rightarrow> string \<Rightarrow> char option \<Rightarrow> string \<Rightarrow> string option" where
  "injectFirst slugv term prev [] = None"
| "injectFirst slugv term prev (c # cs) =
     (if termMatchesAt prev term (c # cs)
      then Some (placeholder slugv (take (length term) (c # cs)) @ drop (length term) (c # cs))
      else map_option ((#) c) (injectFirst slugv term (Some c) cs))"

fun tryTerms :: "string \<Rightarrow> string list \<Rightarrow> string \<Rightarrow> string option" where
  "tryTerms slugv [] newContent = None"
| "tryTerms slugv (term # terms) newContent =
     (case injectFirst slugv term None newContent of
        Some tempContent \<Rightarrow> Some tempContent
      | None \<Rightarrow> tryTerms slugv terms newContent)"

fun quotaLoop :: "(page \<times> string list) list \<Rightarrow> int \<Rightarrow> string list \<Rightarrow> string \<Rightarrow> string" where
  "quotaLoop [] deficit newlyLinkedSlugs newContent = newContent"
| "quotaLoop ((p, terms) # candidates) deficit newlyLinkedSlugs newContent =
     (if deficit \<le> 0 then newContent
      else if the (page_slug p) \<in> set newlyLinkedSlugs
      then quotaLoop candidates deficit newlyLinkedSlugs newContent
      else (case tryTerms (the (page_slug p)) terms newContent of
              Some tempContent \<Rightarrow>
                quotaLoop candidates (deficit - 1) (the (page_slug p) # newlyLinkedSlugs) tempContent
            | None \<Rightarrow> quotaLoop candidates deficit newlyLinkedSlugs newContent))"

text \<open>
  The expression that finds the existing links has no capturing group, so \<open>match[1]\<close> is
  \<open>undefined\<close> for each of them: \<open>linkedSlugs\<close> holds \<open>undefined\<close> and nothing else.
\<close>

definition candidatePages :: "string option list \<Rightarrow> page list \<Rightarrow> (page \<times> string list) list" where
  "candidatePages linkedSlugs availablePages =
     filter (\<lambda>(p, terms). 0 < length terms)
       (map (\<lambda>p. (p, searchTerms (the (page_title p))))
          (filter (\<lambda>p. truthyString (page_slug p) \<and> truthyString (page_title p) \<and>
                        page_slug p \<notin> set linkedSlugs \<and>
                        2 < length (splitSpace (the (page_title p))))
             availablePages))"

definition enforceInternalLinkQuota :: "string \<Rightarrow> page list \<Rightarrow> string \<Rightarrow> int \<Rightarrow> string" where
  "enforceInternalLinkQuota content availablePages primaryKeyword minLinks =
     (if availablePages = [] then content
      else (let existingLinks = filter isMatch (placeholderSegments content);
                linkedSlugs = map (\<lambda>m. None) existingLinks;
                deficit = minLinks - int (length existingLinks)
            in if deficit \<le> 0 then content
               else quotaLoop (candidatePages linkedSlugs availablePages) deficit [] content))"

definition MIN_INTERNAL_LINKS :: int where
  "MIN_INTERNAL_LINKS = 8"

subsection \<open>Resolution (processInternalLinks)\<close>

text \<open>
  \<open>pagesBySlug.get(slug)\<close> for the \<open>Map\<close> built from the pages with a truthy slug: of
  several pages with one slug the last one is stored.
\<close>

definition pagesBySlug_get :: "page list \<Rightarrow> string \<Rightarrow> page option" where
  "pagesBySlug_get availablePages slugv =
     find (\<lambda>p. page_slug p = Some slugv)
       (rev (filter (\<lambda>p. truthyString (page_slug p)) availablePages))"

text \<open>
  \<open>utmUrl\<close> stands for the platform's URL class: \<open>new URL(page.id)\<close>, the three
  \<open>searchParams.set\<close> calls and \<open>toString()\<close>. It is \<open>None\<close> where the constructor throws
  (the id is not an absolute URL).
\<close>

definition resolvePlaceholder ::
  "(string \<Rightarrow> string option) \<Rightarrow> page list \<Rightarrow> string \<Rightarrow> string \<Rightarrow> js_error + string" where
  \<open>resolvePlaceholder utmUrl availablePages slugv textv =
     (case pagesBySlug_get availablePages slugv of
        Some p \<Rightarrow>
          if truthyString (page_id p)
          then (case utmUrl (the (page_id p)) of
                  None \<Rightarrow> Inl TypeError
                | Some finalUrl \<Rightarrow>
                    Inr (''<a href="'' @ finalUrl @ ''">'' @ sanitizeText textv @ ''</a>''))
          else Inr textv
      | None \<Rightarrow> Inr textv)\<close>

text \<open>The callback runs match by match, left to right; the first exception ends the call.\<close>

fun resolveSegments ::
  "(string \<Rightarrow> string option) \<Rightarrow> page list \<Rightarrow> segment list \<Rightarrow> js_error + string" where
  "resolveSegments utmUrl availablePages [] = Inr []"
| "resolveSegments utmUrl availablePages (Lit c # segs) =
     (case resolveSegments utmUrl availablePages segs of
        Inl e \<Rightarrow> Inl e
      | Inr out \<Rightarrow> Inr (c # out))"
| "resolveSegments utmUrl availablePages (Match m slugv textv # segs) =
     (case resolvePlaceholder utmUrl availablePages slugv textv of
        Inl e \<Rightarrow> Inl e
      | Inr r \<Rightarrow>
          (case resolveSegments utmUrl availablePages segs of
             Inl e \<Rightarrow> Inl e
           | Inr out \<Rightarrow> Inr (r @ out)))"

definition processInternalLinks ::
  "(string \<Rightarrow> string option) \<Rightarrow> string \<Rightarrow> page list \<Rightarrow> js_error + string" where
  "processInternalLinks utmUrl content availablePages =
     (if content = [] \<or> availablePages = [] then Inr content
      else resolveSegments utmUrl availablePages (placeholderSegments content))"

subsection \<open>Sanitization (sanitizeBrokenPlaceholders)\<close>

text \<open>
  \<open>/\[INTERNAL_LINK[^\]]*\]/\<close> tried at the start of the input: the matched text and the
  input behind it.
\<close>

definition matchToken :: "string \<Rightarrow> (string \<times> string) option" where
  "matchToken s =
     (case stripPrefix ''[INTERNAL_LINK'' s of
        None \<Rightarrow> None
      | Some r \<Rightarrow>
          if dropWhile notClose r = [] then None
          else Some (''[INTERNAL_LINK'' @ takeWhile notClose r @ '']'', tl (dropWhile notClose r)))"

text \<open>
  \<open>m.match(/name="([^"]+)"/)\<close>: the group of the leftmost match, \<open>None\<close> for \<open>null\<close>.
\<close>

fun findAttribute :: "string \<Rightarrow> string \<Rightarrow> string option" where
  "findAttribute name [] = None"
| "findAttribute name (c # cs) =
     (case stripPrefix (name @ [CHR ''='', dquote]) (c # cs) of
        Some r \<Rightarrow>
          if takeWhile notQuote r \<noteq> [] \<and> dropWhile notQuote r \<noteq> [] then Some (takeWhile notQuote r)
          else findAttribute name cs
      | None \<Rightarrow> findAttribute name cs)"

definition sanitizeToken :: "string \<Rightarrow> string" where
  "sanitizeToken m =
     (let slugMatch = findAttribute ''slug'' m;
          textMatch = findAttribute ''text'' m
      in if slugMatch \<noteq> None \<and> textMatch \<noteq> None then m
         else (case textMatch of Some t \<Rightarrow> t | None \<Rightarrow> []))"

function sanitizeBrokenPlaceholders :: "string \<Rightarrow> string" where
  "sanitizeBrokenPlaceholders [] = []"
| "sanitizeBrokenPlaceholders (c # cs) =
     (case matchToken (c # cs) of
        Some (m, rest) \<Rightarrow> sanitizeToken m @ sanitizeBrokenPlaceholders rest
      | None \<Rightarrow> c # sanitizeBrokenPlaceholders cs)"
  by pat_completeness auto

lemma matchToken_length: "matchToken s = Some (m, rest) \<Longrightarrow> length rest < length s"
proof -
  assume "matchToken s = Some (m, rest)"
  then obtain r where 1: "stripPrefix ''[INTERNAL_LINK'' s = Some r"
    and 2: "rest = tl (dropWhile notClose r)"
    by (auto simp: matchToken_def split: option.splits if_splits)
  have "length rest \<le> length r" using 2
    by (metis diff_le_self le_trans length_dropWhile_le length_tl)
  with stripPrefix_length [OF 1] show ?thesis by simp
qed

termination sanitizeBrokenPlaceholders
  by (relation "measure length") (auto dest: matchToken_length)

subsection \<open>The four steps in order\<close>

definition linkPipeline ::
  "(string \<Rightarrow> string option) \<Rightarrow> page list \<Rightarrow> string \<Rightarrow> int \<Rightarrow> string \<Rightarrow> js_error + string" where
  "linkPipeline utmUrl availablePages primaryKeyword minLinks content =
     (case processInternalLinks utmUrl
             (enforceInternalLinkQuota (validateAndRepairInternalLinks content availablePages)
                availablePages primaryKeyword minLinks)
             availablePages of
        Inl e \<Rightarrow> Inl e
      | Inr resolved \<Rightarrow> Inr (sanitizeBrokenPlaceholders resolved))"


subsection \<open>Well-formed content\<close>

text \<open>
  The shape of content that the properties of the link steps are stated for: a sequence
  of pieces, each either text that holds no \<open>[\<close>, or a placeholder
  \<open>[INTERNAL_LINK slug="S" text="T"]\<close> written with any white space between its parts,
  \<open>S\<close> and \<open>T\<close> non-empty and free of \<open>"\<close> and \<open>[\<close>. \<open>render\<close> is the content string;
  \<open>pieceSegments\<close> is how the scan of the placeholder pattern divides it.
\<close>

datatype piece = Text string | Link string string string string

fun renderPiece :: "piece \<Rightarrow> string" where
  "renderPiece (Text t) = t"
| \<open>renderPiece (Link w1 slugv w2 textv) =
     ''[INTERNAL_LINK'' @ w1 @ ''slug="'' @ slugv @ ''"'' @ w2 @ ''text="'' @ textv @ ''"]''\<close>

definition render :: "piece list \<Rightarrow> string" where
  "render ps = concat (map renderPiece ps)"

fun wellFormedPiece :: "piece \<Rightarrow> bool" where
  "wellFormedPiece (Text t) \<longleftrightarrow> CHR ''['' \<notin> set t"
| "wellFormedPiece (Link w1 slugv w2 textv) \<longleftrightarrow>
     w1 \<noteq> [] \<and> list_all isWhitespace w1 \<and> w2 \<noteq> [] \<and> list_all isWhitespace w2 \<and>
     slugv \<noteq> [] \<and> dquote \<notin> set slugv \<and> CHR ''['' \<notin> set slugv \<and>
     textv \<noteq> [] \<and> dquote \<notin> set textv \<and> CHR ''['' \<notin> set textv"

fun pieceSegments :: "piece \<Rightarrow> segment list" where
  "pieceSegments (Text t) = map Lit t"
| "pieceSegments (Link w1 slugv w2 textv) = [Match (renderPiece (Link w1 slugv w2 textv)) slugv textv]"

text \<open>
  Conditions on the page list: no slug holds \<open>"\<close> or \<open>[\<close>; the URL class accepts every
  non-empty id and prints it without \<open>[\<close>. \<open>knownLink\<close>: a placeholder's slug is a key of
  \<open>pagesBySlug\<close>.
\<close>

definition cleanSlugs :: "page list \<Rightarrow> bool" where
  "cleanSlugs availablePages \<longleftrightarrow>
     (\<forall>p \<in> set availablePages. \<forall>s. page_slug p = Some s \<longrightarrow> dquote \<notin> set s \<and> CHR ''['' \<notin> set s)"

fun knownLink :: "page list \<Rightarrow> piece \<Rightarrow> bool" where
  "knownLink availablePages (Text t) = True"
| "knownLink availablePages (Link w1 slugv w2 textv) = pagesBySlug_has availablePages slugv"

text \<open>The callback of the repair, per segment of the scan.\<close>

definition repairSegment :: "page list \<Rightarrow> segment \<Rightarrow> string" where
  "repairSegment availablePages seg =
     (case seg of Lit c \<Rightarrow> [c] | Match m slugv textv \<Rightarrow> repairPlaceholder availablePages m slugv textv)"



subsection \<open>Where the quota step finds its search terms\<close>









section \<open>Text repair (extractJson)\<close>

subsection \<open>What JSON.parse accepts\<close>

text \<open>
  Modelled from the ECMAScript definition of \<open>JSON.parse\<close>, a built-in of the platform
  and no code of this repository: a recogniser for the JSON grammar (white space is TAB,
  LF, CR and SPACE; a string holds no control character below U+0020 and only the
  escapes \<open>\" \\ \/ \b \f \n \r \t \uXXXX\<close>; a number is
  \<open>-?(0|[1-9][0-9]*)(\.[0-9]+)?([eE][+-]?[0-9]+)?\<close>). It reads the text character by
  character with a stack of the objects and arrays that are still open.
\<close>

datatype frame = InObject | InArray

datatype mode =
    Value | ArrayStart | ObjectStart | Key | Colon | After
  | InString bool | Escape bool | Hex nat bool
  | Literal string
  | Minus | Zero | IntDigits | FracStart | FracDigits | ExpStart | ExpSign | ExpDigits

definition isJsonWhitespace :: "char \<Rightarrow> bool" where
  "isJsonWhitespace c \<longleftrightarrow> c = CHR 0x09 \<or> c = CHR 0x0A \<or> c = CHR 0x0D \<or> c = CHR 0x20"

definition isHexDigit :: "char \<Rightarrow> bool" where
  "isHexDigit c \<longleftrightarrow>
     (let n = (of_char c :: nat)
      in (48 \<le> n \<and> n \<le> 57) \<or> (65 \<le> n \<and> n \<le> 70) \<or> (97 \<le> n \<and> n \<le> 102))"

definition isControl :: "char \<Rightarrow> bool" where
  "isControl c \<longleftrightarrow> (of_char c :: nat) < 32"

text \<open>A value is complete: a comma, the bracket closing the innermost frame, or white space.\<close>

definition afterValue :: "frame list \<Rightarrow> char \<Rightarrow> (mode \<times> frame list) option" where
  "afterValue st c =
     (if isJsonWhitespace c then Some (After, st)
      else (case st of
              [] \<Rightarrow> None
            | InObject # r \<Rightarrow>
                if c = CHR '','' then Some (Key, st)
                else if c = CHR ''}'' then Some (After, r) else None
            | InArray # r \<Rightarrow>
                if c = CHR '','' then Some (Value, st)
                else if c = CHR '']'' then Some (After, r) else None))"

text \<open>The first character of a value.\<close>

definition startValue :: "frame list \<Rightarrow> char \<Rightarrow> (mode \<times> frame list) option" where
  "startValue st c =
     (if c = CHR ''{'' then Some (ObjectStart, InObject # st)
      else if c = CHR ''['' then Some (ArrayStart, InArray # st)
      else if c = dquote then Some (InString False, st)
      else if c = CHR ''-'' then Some (Minus, st)
      else if c = CHR ''0'' then Some (Zero, st)
      else if isDigit c then Some (IntDigits, st)
      else if c = CHR ''t'' then Some (Literal ''rue'', st)
      else if c = CHR ''f'' then Some (Literal ''alse'', st)
      else if c = CHR ''n'' then Some (Literal ''ull'', st)
      else None)"

fun jsonStep :: "mode \<times> frame list \<Rightarrow> char \<Rightarrow> (mode \<times> frame list) option" where
  "jsonStep (Value, st) c =
     (if isJsonWhitespace c then Some (Value, st) else startValue st c)"
| "jsonStep (ArrayStart, st) c =
     (if isJsonWhitespace c then Some (ArrayStart, st)
      else if c = CHR '']'' then Some (After, tl st) else startValue st c)"
| "jsonStep (ObjectStart, st) c =
     (if isJsonWhitespace c then Some (ObjectStart, st)
      else if c = CHR ''}'' then Some (After, tl st)
      else if c = dquote then Some (InString True, st) else None)"
| "jsonStep (Key, st) c =
     (if isJsonWhitespace c then Some (Key, st)
      else if c = dquote then Some (InString True, st) else None)"
| "jsonStep (Colon, st) c =
     (if isJsonWhitespace c then Some (Colon, st)
      else if c = CHR '':'' then Some (Value, st) else None)"
| "jsonStep (After, st) c = afterValue st c"
| "jsonStep (InString k, st) c =
     (if c = dquote then Some (if k then Colon else After, st)
      else if c = CHR 0x5C then Some (Escape k, st)
      else if isControl c then None else Some (InString k, st))"
| "jsonStep (Escape k, st) c =
     (if c = dquote \<or> c = CHR 0x5C \<or> c = CHR ''/'' \<or> c = CHR ''b'' \<or> c = CHR ''f'' \<or>
         c = CHR ''n'' \<or> c = CHR ''r'' \<or> c = CHR ''t''
      then Some (InString k, st)
      else if c = CHR ''u'' then Some (Hex 4 k, st) else None)"
| "jsonStep (Hex n k, st) c =
     (if isHexDigit c then (if n \<le> 1 then Some (InString k, st) else Some (Hex (n - 1) k, st))
      else None)"
| "jsonStep (Literal r, st) c =
     (case r of
        [] \<Rightarrow> None
      | x # xs \<Rightarrow>
          if c = x then (if xs = [] then Some (After, st) else Some (Literal xs, st)) else None)"
| "jsonStep (Minus, st) c =
     (if c = CHR ''0'' then Some (Zero, st)
      else if isDigit c then Some (IntDigits, st) else None)"
| "jsonStep (Zero, st) c =
     (if c = CHR ''.'' then Some (FracStart, st)
      else if c = CHR ''e'' \<or> c = CHR ''E'' then Some (ExpStart, st)
      else afterValue st c)"
| "jsonStep (IntDigits, st) c =
     (if isDigit c then Some (IntDigits, st)
      else if c = CHR ''.'' then Some (FracStart, st)
      else if c = CHR ''e'' \<or> c = CHR ''E'' then Some (ExpStart, st)
      else afterValue st c)"
| "jsonStep (FracStart, st) c = (if isDigit c then Some (FracDigits, st) else None)"
| "jsonStep (FracDigits, st) c =
     (if isDigit c then Some (FracDigits, st)
      else if c = CHR ''e'' \<or> c = CHR ''E'' then Some (ExpStart, st)
      else afterValue st c)"
| "jsonStep (ExpStart, st) c =
     (if c = CHR ''+'' \<or> c = CHR ''-'' then Some (ExpSign, st)
      else if isDigit c then Some (ExpDigits, st) else None)"
| "jsonStep (ExpSign, st) c = (if isDigit c then Some (ExpDigits, st) else None)"
| "jsonStep (ExpDigits, st) c =
     (if isDigit c then Some (ExpDigits, st) else afterValue st c)"

fun jsonRun :: "mode \<times> frame list \<Rightarrow> string \<Rightarrow> (mode \<times> frame list) option" where
  "jsonRun s [] = Some s"
| "jsonRun s (c # cs) = (case jsonStep s c of None \<Rightarrow> None | Some s' \<Rightarrow> jsonRun s' cs)"

text \<open>At the end of the text one value is complete and nothing is open.\<close>

definition complete :: "mode \<times> frame list \<Rightarrow> bool" where
  "complete s \<longleftrightarrow>
     snd s = [] \<and>
     (fst s = After \<or> fst s = Zero \<or> fst s = IntDigits \<or> fst s = FracDigits \<or> fst s = ExpDigits)"

definition jsonParses :: "string \<Rightarrow> bool" where
  "jsonParses t = (case jsonRun (Value, []) t of None \<Rightarrow> False | Some s \<Rightarrow> complete s)"

subsection \<open>The function\<close>

definition fence :: string where
  "fence = [CHR 0x60, CHR 0x60, CHR 0x60]"

text \<open>\<open>.replace(/^```(?:json)?\s*/, '')\<close>.\<close>

definition stripOpeningFence :: "string \<Rightarrow> string" where
  "stripOpeningFence s =
     (case stripPrefix fence s of
        None \<Rightarrow> s
      | Some r \<Rightarrow>
          dropWhile isWhitespace (case stripPrefix ''json'' r of Some r' \<Rightarrow> r' | None \<Rightarrow> r))"

text \<open>
  \<open>.replace(/\s*```$/, '')\<close>: a fence at the very end goes, with the white space in front
  of it.
\<close>

definition stripClosingFence :: "string \<Rightarrow> string" where
  "stripClosingFence s =
     (if suffix fence s
      then rev (dropWhile isWhitespace (rev (take (length s - length fence) s)))
      else s)"

text \<open>\<open>.replace(/```json\s*/gi, '')\<close> and then \<open>.replace(/```\s*/g, '')\<close>.\<close>

definition matchJsonFence :: "string \<Rightarrow> string option" where
  "matchJsonFence s =
     (case stripPrefix fence s of
        None \<Rightarrow> None
      | Some r \<Rightarrow>
          if 4 \<le> length r \<and> map canonicalize (take 4 r) = map canonicalize ''json''
          then Some (dropWhile isWhitespace (drop 4 r)) else None)"

function removeJsonFences :: "string \<Rightarrow> string" where
  "removeJsonFences [] = []"
| "removeJsonFences (c # cs) =
     (case matchJsonFence (c # cs) of
        Some rest \<Rightarrow> removeJsonFences rest
      | None \<Rightarrow> c # removeJsonFences cs)"
  by pat_completeness auto

lemma matchJsonFence_length: "matchJsonFence s = Some rest \<Longrightarrow> length rest < length s"
proof -
  assume "matchJsonFence s = Some rest"
  then obtain r where 1: "stripPrefix fence s = Some r"
    and 2: "rest = dropWhile isWhitespace (drop 4 r)"
    by (auto simp: matchJsonFence_def split: option.splits if_splits)
  have "length rest \<le> length r" using 2
    by (metis diff_le_self le_trans length_dropWhile_le length_drop)
  with stripPrefix_length [OF 1] show ?thesis by (simp add: fence_def)
qed

termination removeJsonFences
  by (relation "measure length") (auto dest: matchJsonFence_length)

function removeFences :: "string \<Rightarrow> string" where
  "removeFences [] = []"
| "removeFences (c # cs) =
     (case stripPrefix fence (c # cs) of
        Some r \<Rightarrow> removeFences (dropWhile isWhitespace r)
      | None \<Rightarrow> c # removeFences cs)"
  by pat_completeness auto

lemma stripFence_length:
  "stripPrefix fence s = Some r \<Longrightarrow> length (dropWhile isWhitespace r) < length s"
proof -
  assume 1: "stripPrefix fence s = Some r"
  have "length (dropWhile isWhitespace r) \<le> length r" by (rule length_dropWhile_le)
  with stripPrefix_length [OF 1] show ?thesis by (simp add: fence_def)
qed

termination removeFences
  by (relation "measure length") (auto dest: stripFence_length)

text \<open>
  \<open>.replace(/,(\s*[}\]])/g, '$1')\<close>: a comma in front of a closing bracket, white space
  allowed between them, goes; the scan continues behind the bracket.
\<close>

definition closesAfterSpace :: "string \<Rightarrow> bool" where
  "closesAfterSpace s =
     (case dropWhile isWhitespace s of
        [] \<Rightarrow> False
      | b # r \<Rightarrow> b = CHR ''}'' \<or> b = CHR '']'')"

function removeTrailingCommas :: "string \<Rightarrow> string" where
  "removeTrailingCommas [] = []"
| "removeTrailingCommas (c # cs) =
     (if c = CHR '','' \<and> closesAfterSpace cs
      then takeWhile isWhitespace cs @ hd (dropWhile isWhitespace cs) #
             removeTrailingCommas (tl (dropWhile isWhitespace cs))
      else c # removeTrailingCommas cs)"
  by pat_completeness auto
termination
  by (relation "measure length")
     (auto simp: less_Suc_eq_le intro: le_trans [OF diff_le_self length_dropWhile_le])

text \<open>\<open>.replace(/,(?=\s*[}\]])/g, '')\<close>, the repair after a failed parse.\<close>

fun repairTrailingCommas :: "string \<Rightarrow> string" where
  "repairTrailingCommas [] = []"
| "repairTrailingCommas (c # cs) =
     (if c = CHR '','' \<and> closesAfterSpace cs then repairTrailingCommas cs
      else c # repairTrailingCommas cs)"

text \<open>\<open>s.indexOf(c)\<close>, with \<open>None\<close> for -1.\<close>

fun indexOf :: "char \<Rightarrow> string \<Rightarrow> nat option" where
  "indexOf x [] = None"
| "indexOf x (c # cs) = (if c = x then Some 0 else map_option Suc (indexOf x cs))"

text \<open>
  The \<open>for\<close> loop over \<open>potentialJson\<close> from index 1: the index of the bracket that brings
  the balance to zero (\<open>None\<close> while \<open>endIndex\<close> is -1) and the balance at the end.
\<close>

fun scanBalance ::
  "char \<Rightarrow> char \<Rightarrow> nat \<Rightarrow> int \<Rightarrow> bool \<Rightarrow> bool \<Rightarrow> string \<Rightarrow> nat option \<times> int" where
  "scanBalance startChar endChar i balance inString escapeNext [] = (None, balance)"
| "scanBalance startChar endChar i balance inString escapeNext (c # cs) =
     (if escapeNext then scanBalance startChar endChar (i + 1) balance inString False cs
      else if c = CHR 0x5C then scanBalance startChar endChar (i + 1) balance inString True cs
      else (let inString' = (if c = dquote then \<not> inString else inString)
            in if inString' then scanBalance startChar endChar (i + 1) balance inString' False cs
               else (let balance' = (if c = startChar then balance + 1
                                     else if c = endChar then balance - 1 else balance)
                     in if balance' = 0 then (Some i, balance')
                        else scanBalance startChar endChar (i + 1) balance' inString' False cs)))"

definition jsonCandidate :: "string \<Rightarrow> string" where
  "jsonCandidate potentialJson =
     (let startChar = hd potentialJson;
          endChar = (if startChar = CHR ''{'' then CHR ''}'' else CHR '']'')
      in case scanBalance startChar endChar 1 1 False False (tl potentialJson) of
           (Some endIndex, balance) \<Rightarrow> take (endIndex + 1) potentialJson
         | (None, balance) \<Rightarrow>
             if 0 < balance then potentialJson @ replicate (nat balance) endChar
             else potentialJson)"

definition cleanText :: "string \<Rightarrow> string" where
  "cleanText t =
     removeTrailingCommas
       (removeFences (removeJsonFences (trim (stripClosingFence (stripOpeningFence t)))))"

definition extractJson :: "string \<Rightarrow> js_error + string" where
  "extractJson t =
     (if trim t = [] then Inl (Error ''Input text is invalid, empty, or not a string.'')
      else if jsonParses t then Inr t
      else (let cleanedText = cleanText t;
                firstBracket = indexOf (CHR ''{'') cleanedText;
                firstSquare = indexOf (CHR ''['') cleanedText
            in if firstBracket = None \<and> firstSquare = None
               then Inl (Error ''No JSON object/array found. Ensure your prompt requests JSON output only without markdown.'')
               else (let startIndex =
                           (case firstBracket of
                              None \<Rightarrow> the firstSquare
                            | Some b \<Rightarrow> (case firstSquare of None \<Rightarrow> b | Some q \<Rightarrow> min b q));
                         candidate = jsonCandidate (drop startIndex cleanedText)
                     in if jsonParses candidate then Inr candidate
                        else (let repaired = repairTrailingCommas candidate
                              in if jsonParses repaired then Inr repaired
                                 else Inl (Error ''Unable to parse JSON from AI response after multiple repair attempts.'')))))"


subsection \<open>Wrapped JSON texts\<close>

text \<open>
  The texts the round trip is stated for. \<open>jsonCore\<close>: the text starts with \<open>{\<close> or \<open>[\<close> and
  ends with \<open>}\<close> or \<open>]\<close>, so it is an object or an array with no white space around it.
  \<open>commaSafe\<close>: no comma of the text is followed, white space aside, by a closing bracket
  (in valid JSON such a comma can only stand inside a string literal). \<open>noBracket\<close>: the
  text in front holds neither \<open>{\<close> nor \<open>[\<close>.
\<close>

definition jsonCore :: "string \<Rightarrow> bool" where
  "jsonCore J \<longleftrightarrow>
     J \<noteq> [] \<and> (hd J = CHR ''{'' \<or> hd J = CHR ''['') \<and> (last J = CHR ''}'' \<or> last J = CHR '']'')"

definition noBracket :: "string \<Rightarrow> bool" where
  "noBracket p \<longleftrightarrow> CHR ''{'' \<notin> set p \<and> CHR ''['' \<notin> set p"

fun commaSafe :: "string \<Rightarrow> bool" where
  "commaSafe [] = True"
| "commaSafe (c # cs) = (\<not> (c = CHR '','' \<and> closesAfterSpace cs) \<and> commaSafe cs)"

subsection \<open>The bracket scan against the recogniser\<close>

text \<open>
  What the loop of \<open>extractJson\<close> tracks, read off the recogniser's state: whether the
  position is inside a string literal, and whether the last character was a backslash
  that is still pending. \<open>modeOk\<close> holds in every state the recogniser reaches; a
  \<open>plainChar\<close> is neither a quote, a backslash nor a bracket. \<open>stepShape\<close> lists the ways one
  step of the recogniser can look to the loop.
\<close>

definition inStr :: "mode \<Rightarrow> bool" where
  "inStr m = (case m of InString k \<Rightarrow> True | Escape k \<Rightarrow> True | Hex n k \<Rightarrow> True | _ \<Rightarrow> False)"

definition escaped :: "mode \<Rightarrow> bool" where
  "escaped m = (case m of Escape k \<Rightarrow> True | _ \<Rightarrow> False)"

definition plainChar :: "char \<Rightarrow> bool" where
  "plainChar c \<longleftrightarrow> c \<noteq> CHR 0x22 \<and> c \<noteq> CHR 0x5C \<and> c \<noteq> CHR ''{'' \<and> c \<noteq> CHR ''}'' \<and>
     c \<noteq> CHR ''['' \<and> c \<noteq> CHR '']''"

definition modeOk :: "mode \<times> frame list \<Rightarrow> bool" where
  "modeOk s = (case fst s of
       ArrayStart \<Rightarrow> snd s \<noteq> [] \<and> hd (snd s) = InArray
     | ObjectStart \<Rightarrow> snd s \<noteq> [] \<and> hd (snd s) = InObject
     | Literal r \<Rightarrow> list_all plainChar r
     | _ \<Rightarrow> True)"

definition bracketsOf :: "frame \<Rightarrow> char \<times> char" where
  "bracketsOf fr = (case fr of InObject \<Rightarrow> (CHR ''{'', CHR ''}'') | InArray \<Rightarrow> (CHR ''['', CHR '']''))"

definition stepShape :: "mode \<Rightarrow> frame list \<Rightarrow> char \<Rightarrow> mode \<Rightarrow> frame list \<Rightarrow> bool" where
  "stepShape m st c m' st' \<longleftrightarrow>
     (plainChar c \<and> st' = st \<and> \<not> inStr m \<and> \<not> inStr m' \<and> \<not> escaped m \<and> \<not> escaped m') \<or>
     (c = CHR ''{'' \<and> st' = InObject # st \<and> \<not> inStr m \<and> \<not> inStr m' \<and> \<not> escaped m \<and> \<not> escaped m') \<or>
     (c = CHR ''['' \<and> st' = InArray # st \<and> \<not> inStr m \<and> \<not> inStr m' \<and> \<not> escaped m \<and> \<not> escaped m') \<or>
     (c = CHR ''}'' \<and> st = InObject # st' \<and> m' = After \<and> \<not> inStr m \<and> \<not> escaped m) \<or>
     (c = CHR '']'' \<and> st = InArray # st' \<and> m' = After \<and> \<not> inStr m \<and> \<not> escaped m) \<or>
     (c = CHR 0x22 \<and> st' = st \<and> \<not> escaped m \<and> \<not> escaped m' \<and> inStr m' = (\<not> inStr m)) \<or>
     (escaped m \<and> st' = st \<and> inStr m \<and> inStr m' \<and> \<not> escaped m') \<or>
     (c = CHR 0x5C \<and> st' = st \<and> \<not> escaped m \<and> inStr m \<and> inStr m' \<and> escaped m') \<or>
     (c \<noteq> CHR 0x22 \<and> c \<noteq> CHR 0x5C \<and> st' = st \<and> inStr m \<and> \<not> escaped m \<and> inStr m' \<and> \<not> escaped m')"


section \<open>Structured data (schema-generator)\<close>

text \<open>
  The values the schema generator builds and \<open>JSON.stringify\<close> prints: \<open>undefined\<close>, strings,
  the non-negative integers that occur (counts and positions), booleans, arrays, and
  objects as their properties in insertion order.
\<close>

datatype json =
    JUndefined
  | JString string
  | JNumber nat
  | JBool bool
  | JArray "json list"
  | JObject "(string \<times> json) list"

definition newline :: char where
  "newline = CHR 0x0A"

definition backslash :: char where
  "backslash = CHR 0x5C"

text \<open>
  \<open>QuoteJSONString\<close>: the double quote and the backslash are escaped, the control
  characters below U+0020 are written \<open>\b\<close>, \<open>\t\<close>, \<open>\n\<close>, \<open>\f\<close>, \<open>\r\<close> or \<open>\u00XX\<close>.
\<close>

definition hexDigit :: "nat \<Rightarrow> char" where
  "hexDigit n = ''0123456789abcdef'' ! n"

definition quoteChar :: "char \<Rightarrow> string" where
  "quoteChar c =
     (if c = dquote then [backslash, dquote]
      else if c = backslash then [backslash, backslash]
      else if c = CHR 0x08 then [backslash, CHR ''b'']
      else if c = CHR 0x09 then [backslash, CHR ''t'']
      else if c = CHR 0x0A then [backslash, CHR ''n'']
      else if c = CHR 0x0C then [backslash, CHR ''f'']
      else if c = CHR 0x0D then [backslash, CHR ''r'']
      else if (of_char c :: nat) < 32
      then [backslash, CHR ''u'', CHR ''0'', CHR ''0'',
            hexDigit ((of_char c :: nat) div 16), hexDigit ((of_char c :: nat) mod 16)]
      else [c])"

definition quoteJSONString :: "string \<Rightarrow> string" where
  "quoteJSONString s = dquote # concat (map quoteChar s) @ [dquote]"

text \<open>\<open>a.join(sep)\<close>.\<close>

fun joinWith :: "string \<Rightarrow> string list \<Rightarrow> string" where
  "joinWith sep [] = []"
| "joinWith sep [w] = w"
| "joinWith sep (w # ws) = w @ sep @ joinWith sep ws"

text \<open>
  \<open>JSON.stringify(value, null, 2)\<close> below the top level (\<open>SerializeJSONProperty\<close>), at the
  current indentation: \<open>None\<close> for \<open>undefined\<close>, which an object leaves out together with
  its key and an array prints as \<open>null\<close>.
\<close>

fun serializeJSONProperty :: "string \<Rightarrow> json \<Rightarrow> string option" where
  "serializeJSONProperty indent JUndefined = None"
| "serializeJSONProperty indent (JString s) = Some (quoteJSONString s)"
| "serializeJSONProperty indent (JNumber n) = Some (decimal n)"
| "serializeJSONProperty indent (JBool b) = Some (if b then ''true'' else ''false'')"
| "serializeJSONProperty indent (JArray xs) =
     (let stepback = indent;
          indent = indent @ ''  '';
          partial = map (\<lambda>x. case serializeJSONProperty indent x of None \<Rightarrow> ''null'' | Some t \<Rightarrow> t) xs
      in Some (if partial = [] then ''[]''
               else ''['' @ [newline] @ indent @ joinWith ('','' @ [newline] @ indent) partial @
                    [newline] @ stepback @ '']''))"
| "serializeJSONProperty indent (JObject ps) =
     (let stepback = indent;
          indent = indent @ ''  '';
          partial = concat (map (\<lambda>(k, v). case serializeJSONProperty indent v of
                                             None \<Rightarrow> []
                                           | Some t \<Rightarrow> [quoteJSONString k @ '': '' @ t]) ps)
      in Some (if partial = [] then ''{}''
               else ''{'' @ [newline] @ indent @ joinWith ('','' @ [newline] @ indent) partial @
                    [newline] @ stepback @ ''}''))"



























text \<open>\<open>o.name\<close> and the like: the value of a property, \<open>undefined\<close> where there is none.\<close>

definition property :: "json \<Rightarrow> string \<Rightarrow> json" where
  "property v k =
     (case v of
        JObject ps \<Rightarrow> (case map_of ps k of None \<Rightarrow> JUndefined | Some x \<Rightarrow> x)
      | _ \<Rightarrow> JUndefined)"













text \<open>
  \<open>generateSchemaMarkup\<close>: nothing for a value that is falsy or has no own property
  \<open>@graph\<close>, or whose \<open>@graph\<close> has a \<open>length\<close> of zero; reading the \<open>length\<close> of
  \<open>undefined\<close> raises a \<open>TypeError\<close>. Otherwise the script element around
  \<open>JSON.stringify(schemaObject, null, 2)\<close>, in a Custom HTML block.
\<close>

definition lengthProperty :: "json \<Rightarrow> json" where
  "lengthProperty v =
     (case v of
        JArray xs \<Rightarrow> JNumber (length xs)
      | JString s \<Rightarrow> JNumber (length s)
      | JObject ps \<Rightarrow> property v ''length''
      | _ \<Rightarrow> JUndefined)"

definition generateSchemaMarkup :: "json \<Rightarrow> js_error + string" where
  \<open>generateSchemaMarkup schemaObject =
     (case schemaObject of
        JObject ps \<Rightarrow>
          (case map_of ps ''@graph'' of
             None \<Rightarrow> Inr []
           | Some graph \<Rightarrow>
               if graph = JUndefined then Inl TypeError
               else if lengthProperty graph = JNumber 0 then Inr []
               else (let schemaScript =
                           ''<script type="application/ld+json">'' @ [newline] @
                           the (serializeJSONProperty [] schemaObject) @ [newline] @ ''</script>''
                     in Inr ([newline, newline] @ ''<!-- wp:html -->'' @ [newline] @ schemaScript @
                             [newline] @ ''<!-- /wp:html -->'' @ [newline, newline])))
      | _ \<Rightarrow> Inr [])\<close>

section \<open>Normalisation and the finalize stage\<close>




text \<open>\<open>s.split(sep)\<close> for a non-empty separator.\<close>

function splitString_from :: "string \<Rightarrow> string \<Rightarrow> string \<Rightarrow> string list" where
  "splitString_from sep piece [] = [piece]"
| "splitString_from sep piece (c # cs) =
     (if sep \<noteq> [] \<and> prefix sep (c # cs)
      then piece # splitString_from sep [] (drop (length sep) (c # cs))
      else splitString_from sep (piece @ [c]) cs)"
  by pat_completeness auto
termination
  by (relation "measure (\<lambda>(sep, piece, s). length s)") auto

definition splitString :: "string \<Rightarrow> string \<Rightarrow> string list" where
  "splitString sep s = splitString_from sep [] s"

text \<open>
  The two blocks that put a missing image placeholder into the content: where the
  content is non-empty and does not hold the placeholder, a paragraph with it is
  spliced in at position \<open>index\<close> of the pieces between the \<open></p>\<close>, or appended when
  there are not more than \<open>index\<close> pieces.
\<close>

definition injectImagePlaceholder :: "string \<Rightarrow> nat \<Rightarrow> string \<Rightarrow> string" where
  "injectImagePlaceholder imagePlaceholder index content =
     (if content \<noteq> [] \<and> \<not> includesStr content imagePlaceholder
      then (let paragraphs = splitString ''</p>'' content
            in if index < length paragraphs
               then joinWith ''</p>''
                      (take index paragraphs @ [''<p>'' @ imagePlaceholder @ ''</p>''] @ drop index paragraphs)
               else content @ ''<p>'' @ imagePlaceholder @ ''</p>'')
      else content)"






section \<open>Properties of the response cache\<close>

text \<open>
  Claim C6. After \<open>set(key, value)\<close> at time \<open>T\<close>, a \<open>get(key)\<close> at time \<open>T'\<close> returns the
  value when \<open>T' - T < 3600000\<close> and \<open>null\<close> when \<open>T' - T\<close> has reached the TTL; in both
  cases the store is left as it was, the item still in it (expiry is lazy).
\<close>

theorem ContentCache_ttl:
  "(T' - T < 3600000 \<longrightarrow> fst (ContentCache_get T' k (ContentCache_set T k v c)) = Some v) \<and>
   (TTL \<le> T' - T \<longrightarrow> fst (ContentCache_get T' k (ContentCache_set T k v c)) = None) \<and>
   snd (ContentCache_get T' k (ContentCache_set T k v c)) = ContentCache_set T k v c \<and>
   ContentCache_set T k v c k = Some \<lparr>data = v, timestamp = T\<rparr>"
  by (simp add: ContentCache_get_def ContentCache_set_def TTL_def)

theorem ContentCache_ttl_witness:
  "fst (ContentCache_get 1000 ''outline:solar''
          (ContentCache_set 0 ''outline:solar'' (7::nat) Map.empty)) = Some 7 \<and>
   fst (ContentCache_get 3601000 ''outline:solar''
          (ContentCache_set 0 ''outline:solar'' (7::nat) Map.empty)) = None \<and>
   snd (ContentCache_get 3601000 ''outline:solar''
          (ContentCache_set 0 ''outline:solar'' (7::nat) Map.empty)) ''outline:solar''
     = Some \<lparr>data = 7, timestamp = 0\<rparr>"
  using ContentCache_ttl [of 1000 0 "''outline:solar''" "7::nat" Map.empty]
        ContentCache_ttl [of 3601000 0 "''outline:solar''" "7::nat" Map.empty]
  by (simp add: TTL_def)


section \<open>Properties of the retrying invoker\<close>

text \<open>
  Claim C4. With \<open>maxRetries \<ge> 1\<close>, when the first invocation fails with an error whose
  status lies in [400, 500) and is not 429, or whose lower-cased message mentions
  \<open>context length\<close>, \<open>token limit\<close> or \<open>api key not valid\<close>, the error is raised at once: the
  call has been invoked exactly once and nothing was waited for.
\<close>

theorem callAiWithRetry_fails_fast:
  assumes "1 \<le> maxRetries"
    and "apiCall 0 = Inl e"
    and "(\<exists>s. status e = Some s \<and> 400 \<le> s \<and> s < 500 \<and> s \<noteq> 429)
         \<or> includesStr (errorMessage e) ''context length''
         \<or> includesStr (errorMessage e) ''token limit''
         \<or> includesStr (errorMessage e) ''api key not valid''"
  shows "callAiWithRetry env apiCall maxRetries initialDelay =
           \<lparr>outcome = Inl e, invocations = 1, waits = []\<rparr>"
proof -
  have "isNonRetriableClientError e \<or> isContextLengthError e \<or> isInvalidApiKeyError e"
    using assms(3)
    by (auto simp: isNonRetriableClientError_def isContextLengthError_def
        isInvalidApiKeyError_def statusCode_def truthyNat_def)
  with assms(1,2) show ?thesis
    by (simp add: callAiWithRetry_def)
qed

theorem callAiWithRetry_fails_fast_witness:
  "callAiWithRetry \<lparr>date_parse = (\<lambda>h. None), clock = (\<lambda>k. 0), jitter = (\<lambda>k. 0)\<rparr>
     (\<lambda>k. Inl \<lparr>message = Some ''Request failed'', status = Some 401,
                headers_retry_after = None, response_retry_after = None\<rparr> :: ai_error + unit)
     5 5000
   = \<lparr>outcome = Inl \<lparr>message = Some ''Request failed'', status = Some 401,
                      headers_retry_after = None, response_retry_after = None\<rparr>,
      invocations = 1, waits = []\<rparr> \<and>
   callAiWithRetry \<lparr>date_parse = (\<lambda>h. None), clock = (\<lambda>k. 0), jitter = (\<lambda>k. 0)\<rparr>
     (\<lambda>k. Inl \<lparr>message = Some ''API key not valid. Please pass a valid API key.'', status = None,
                headers_retry_after = None, response_retry_after = None\<rparr> :: ai_error + unit)
     5 5000
   = \<lparr>outcome = Inl \<lparr>message = Some ''API key not valid. Please pass a valid API key.'',
                      status = None, headers_retry_after = None, response_retry_after = None\<rparr>,
      invocations = 1, waits = []\<rparr>"
proof -
  let ?env = "\<lparr>date_parse = (\<lambda>h. None), clock = (\<lambda>k. 0), jitter = (\<lambda>k. 0)\<rparr>"
  let ?e1 = "\<lparr>message = Some ''Request failed'', status = Some 401,
              headers_retry_after = None, response_retry_after = None\<rparr>"
  let ?e2 = "\<lparr>message = Some ''API key not valid. Please pass a valid API key.'', status = None,
              headers_retry_after = None, response_retry_after = None\<rparr>"
  have k: "includesStr (errorMessage ?e2) ''api key not valid''"
    by (simp add: errorMessage_def toLowerCase_def toLowerChar_def isUpperChar_def)
  have "callAiWithRetry ?env (\<lambda>k. Inl ?e1 :: ai_error + unit) 5 5000 =
          \<lparr>outcome = Inl ?e1, invocations = 1, waits = []\<rparr>"
    by (rule callAiWithRetry_fails_fast) simp_all
  moreover have "callAiWithRetry ?env (\<lambda>k. Inl ?e2 :: ai_error + unit) 5 5000 =
          \<lparr>outcome = Inl ?e2, invocations = 1, waits = []\<rparr>"
    by (rule callAiWithRetry_fails_fast) (simp_all add: k)
  ultimately show ?thesis by (simp only:) 
qed


section \<open>Properties of the word-count gate\<close>

subsection \<open>The count of the code and the count of the specification\<close>














subsection \<open>The body that the finalize stage builds\<close>












text \<open>
  The parts of the stage at small inputs: the markup around a schema object (a property
  that is \<open>undefined\<close> is left out), no markup for an empty graph, the placeholder of a
  missing image behind the second paragraph, and the count of two one-word paragraphs
  that touch.
\<close>

theorem finalizeStage_examples:
  \<open>generateSchemaMarkup
     (JObject [(''@context'', JString ''https://schema.org''),
               (''@graph'', JArray [JObject [(''@type'', JString ''Thing''), (''name'', JUndefined)]])])
   = Inr ''\<newline>\<newline><!-- wp:html -->\<newline><script type="application/ld+json">\<newline>{\<newline>  "@context": "https://schema.org",\<newline>  "@graph": [\<newline>    {\<newline>      "@type": "Thing"\<newline>    }\<newline>  ]\<newline>}\<newline></script>\<newline><!-- /wp:html -->\<newline>\<newline>'' \<and>
   generateSchemaMarkup (JObject [(''@graph'', JArray [])]) = Inr [] \<and>
   injectImagePlaceholder ''[IMAGE_1_PLACEHOLDER]'' 2 ''<p>a</p><p>b</p><p>c</p>''
   = ''<p>a</p><p>b</p><p>[IMAGE_1_PLACEHOLDER]</p></p><p>c</p>'' \<and>
   countWords ''<p>Too</p><p>short.</p>'' = 2 \<and>
   tagStrippedTokenCount ''<p>Too</p><p>short.</p>'' = 2\<close>
  by code_simp

text \<open>
  Claim C10, as amended. \<open>undefined\<close>, \<open>null\<close> and every value without a callable \<open>replace\<close>
  make the first line raise a \<open>TypeError\<close>, before anything is logged or checked. The
  guard behind it is reached all the same: by the empty string and by a \<open>String\<close> object,
  for which it raises \<open>ContentTooShortError("Content is undefined or not a string", "", 0)\<close>.
  A non-empty primitive string passes the guard and its word count is returned.
\<close>

theorem enforceWordCount_guard:
  "enforceWordCount Undefined minWords maxWords = ([], Inl TypeError) \<and>
   enforceWordCount Null minWords maxWords = ([], Inl TypeError) \<and>
   enforceWordCount NoReplace minWords maxWords = ([], Inl TypeError) \<and>
   snd (enforceWordCount (Str []) minWords maxWords) =
     Inl (ContentTooShortError ''Content is undefined or not a string'' [] 0) \<and>
   snd (enforceWordCount (StringObject s) minWords maxWords) =
     Inl (ContentTooShortError ''Content is undefined or not a string'' [] 0) \<and>
   (s \<noteq> [] \<longrightarrow> snd (enforceWordCount (Str s) minWords maxWords) = Inr (countWords s))"
  by (simp add: enforceWordCount_def Let_def)

theorem enforceWordCount_guard_witness:
  "snd (enforceWordCount (Str ''two words'') 2500 3000) = Inr 2"
proof -
  have "countWords ''two words'' = 2"
    by (simp add: countWords_def splitWhitespace_def trim_def isWhitespace_def)
  with enforceWordCount_guard [of 2500 3000 "''two words''"] show ?thesis by simp
qed

text \<open>The guard of \<open>enforceWordCount\<close> fires on the empty string.\<close>

theorem enforceWordCount_guard_reached:
  "snd (enforceWordCount (Str []) 2500 3000) =
     Inl (ContentTooShortError ''Content is undefined or not a string'' [] 0)"
  by (simp add: enforceWordCount_def Let_def)


section \<open>Properties of the link integrity subsystem\<close>

text \<open>
  Claim C9. With an empty page list both \<open>validateAndRepairInternalLinks\<close> and
  \<open>processInternalLinks\<close> return the content as it is, whatever placeholders it holds.
\<close>

theorem empty_inventory_identity:
  "validateAndRepairInternalLinks content [] = content \<and>
   processInternalLinks utmUrl content [] = Inr content"
  by (simp add: validateAndRepairInternalLinks_def processInternalLinks_def)

text \<open>
  Claim C3, evaluated at a failing input. The content already links the page
  \<open>seo-guide\<close> through a valid placeholder, and the page's title occurs in the text; the
  quota step wraps that occurrence in a second placeholder for the same slug.
\<close>

theorem enforceInternalLinkQuota_links_twice:
  \<open>enforceInternalLinkQuota
     ''[INTERNAL_LINK slug="seo-guide" text="read"] see the ultimate seo guide now''
     [\<lparr>page_id = Some ''https://example.com/seo-guide'',
       page_title = Some ''the ultimate seo guide'', page_slug = Some ''seo-guide''\<rparr>]
     ''seo'' 8
   = ''[INTERNAL_LINK slug="seo-guide" text="read"] see [INTERNAL_LINK slug="seo-guide" text="the ultimate seo guide"] now''\<close>
  by code_simp


text \<open>
  A second pass of the repair changes its own output: the first pass drops the inner
  placeholder and so completes the outer one, which the second pass then drops.
\<close>

theorem validateAndRepairInternalLinks_not_idempotent:
  \<open>validateAndRepairInternalLinks
     ''[INTERNAL_LINK slug="q" text="[INTERNAL_LINK slug="x" text="a"]"]''
     [\<lparr>page_id = Some ''https://example.com/p'', page_title = Some ''zzz'', page_slug = Some ''p''\<rparr>]
   = ''[INTERNAL_LINK slug="q" text="a"]'' \<and>
   validateAndRepairInternalLinks ''[INTERNAL_LINK slug="q" text="a"]''
     [\<lparr>page_id = Some ''https://example.com/p'', page_title = Some ''zzz'', page_slug = Some ''p''\<rparr>]
   = ''a'' \<and>
   validateAndRepairInternalLinks
     (validateAndRepairInternalLinks
        ''[INTERNAL_LINK slug="q" text="[INTERNAL_LINK slug="x" text="a"]"]''
        [\<lparr>page_id = Some ''https://example.com/p'', page_title = Some ''zzz'', page_slug = Some ''p''\<rparr>])
     [\<lparr>page_id = Some ''https://example.com/p'', page_title = Some ''zzz'', page_slug = Some ''p''\<rparr>]
   \<noteq> validateAndRepairInternalLinks
       ''[INTERNAL_LINK slug="q" text="[INTERNAL_LINK slug="x" text="a"]"]''
       [\<lparr>page_id = Some ''https://example.com/p'', page_title = Some ''zzz'', page_slug = Some ''p''\<rparr>]\<close>
  by code_simp

subsection \<open>The scan of well-formed content\<close>

lemma matchPlaceholder_other: "c \<noteq> CHR ''['' \<Longrightarrow> matchPlaceholder (c # cs) = None"
  by (simp add: matchPlaceholder_def stripPrefix_def)

lemma placeholderSegments_text:
  "CHR ''['' \<notin> set t \<Longrightarrow> placeholderSegments (t @ rest) = map Lit t @ placeholderSegments rest"
  by (induction t) (auto simp: matchPlaceholder_other)

lemma takeWhile_notQuote: "CHR 0x22 \<notin> set v \<Longrightarrow> takeWhile notQuote (v @ CHR 0x22 # rest) = v"
  by (induction v) (auto simp: notQuote_def dquote_def)

lemma dropWhile_notQuote:
  "CHR 0x22 \<notin> set v \<Longrightarrow> dropWhile notQuote (v @ CHR 0x22 # rest) = CHR 0x22 # rest"
  by (induction v) (auto simp: notQuote_def dquote_def)

lemma dropWhile_whitespace:
  "list_all isWhitespace w \<Longrightarrow> \<not> isWhitespace c \<Longrightarrow> dropWhile isWhitespace (w @ c # rest) = c # rest"
  by (induction w) auto

lemma stripPrefix_append: "stripPrefix p (p @ r) = Some r"
  by (simp add: stripPrefix_def)

lemma matchAttribute_intro:
  assumes "isWhitespace c" "list_all isWhitespace cs" "name = n # ns" "\<not> isWhitespace n"
    and "v \<noteq> []" "CHR 0x22 \<notin> set v"
  shows "matchAttribute name (c # cs @ name @ CHR ''='' # CHR 0x22 # v @ CHR 0x22 # rest) = Some (v, rest)"
proof -
  have d: "dropWhile isWhitespace (cs @ name @ CHR ''='' # CHR 0x22 # v @ CHR 0x22 # rest)
           = name @ CHR ''='' # CHR 0x22 # v @ CHR 0x22 # rest"
    using dropWhile_whitespace [OF assms(2) assms(4)] assms(3) by simp
  have p: "stripPrefix (name @ [CHR ''='', dquote]) (name @ CHR ''='' # CHR 0x22 # v @ CHR 0x22 # rest)
           = Some (v @ CHR 0x22 # rest)"
    using stripPrefix_append [of "name @ [CHR ''='', dquote]" "v @ CHR 0x22 # rest"]
    by (simp add: dquote_def)
  show ?thesis
    using assms(1,5,6) 
    by (simp add: matchAttribute_def d p takeWhile_notQuote dropWhile_notQuote)
qed

lemma matchPlaceholder_render:
  assumes "wellFormedPiece (Link w1 slugv w2 textv)"
  shows "matchPlaceholder (renderPiece (Link w1 slugv w2 textv) @ rest) = Some (slugv, textv, rest)"
proof -
  obtain c1 cs1 where w1: "w1 = c1 # cs1" "isWhitespace c1" "list_all isWhitespace cs1"
    using assms by (cases w1) auto
  obtain c2 cs2 where w2: "w2 = c2 # cs2" "isWhitespace c2" "list_all isWhitespace cs2"
    using assms by (cases w2) auto
  have q: "slugv \<noteq> []" "CHR 0x22 \<notin> set slugv" "textv \<noteq> []" "CHR 0x22 \<notin> set textv"
    using assms by (auto simp: dquote_def)
  have t: "matchAttribute ''text'' (c2 # cs2 @ ''text'' @ CHR ''='' # CHR 0x22 # textv @ CHR 0x22 # CHR '']'' # rest)
           = Some (textv, CHR '']'' # rest)"
    by (rule matchAttribute_intro [where n = "CHR ''t''" and ns = "''ext''", OF w2(2,3) _ _ q(3,4)])
       (simp_all add: isWhitespace_def)
  have s: "matchAttribute ''slug'' (c1 # cs1 @ ''slug'' @ CHR ''='' # CHR 0x22 # slugv @ CHR 0x22 #
              (c2 # cs2 @ ''text'' @ CHR ''='' # CHR 0x22 # textv @ CHR 0x22 # CHR '']'' # rest))
           = Some (slugv, c2 # cs2 @ ''text'' @ CHR ''='' # CHR 0x22 # textv @ CHR 0x22 # CHR '']'' # rest)"
    by (rule matchAttribute_intro [where n = "CHR ''s''" and ns = "''lug''", OF w1(2,3) _ _ q(1,2)])
       (simp_all add: isWhitespace_def)
  have r: "renderPiece (Link w1 slugv w2 textv) @ rest =
           ''[INTERNAL_LINK'' @ (c1 # cs1 @ ''slug'' @ CHR ''='' # CHR 0x22 # slugv @ CHR 0x22 #
              (c2 # cs2 @ ''text'' @ CHR ''='' # CHR 0x22 # textv @ CHR 0x22 # CHR '']'' # rest))"
    by (simp add: w1 w2)
  show ?thesis
    unfolding r matchPlaceholder_def stripPrefix_append
    by (simp only: s t option.case prod.case list.case refl if_True)
qed

lemma placeholderSegments_link:
  assumes "wellFormedPiece (Link w1 slugv w2 textv)"
  shows "placeholderSegments (renderPiece (Link w1 slugv w2 textv) @ rest) =
           Match (renderPiece (Link w1 slugv w2 textv)) slugv textv # placeholderSegments rest"
proof -
  obtain c cs where r: "renderPiece (Link w1 slugv w2 textv) @ rest = c # cs"
    by (cases "renderPiece (Link w1 slugv w2 textv) @ rest") auto
  have "placeholderSegments (c # cs) =
          Match (take (length (c # cs) - length rest) (c # cs)) slugv textv # placeholderSegments rest"
    using matchPlaceholder_render [OF assms, of rest] unfolding r by simp
  moreover have "take (length (c # cs) - length rest) (c # cs) = renderPiece (Link w1 slugv w2 textv)"
    unfolding r [symmetric] by (simp del: renderPiece.simps)
  ultimately show ?thesis unfolding r by simp
qed

lemma placeholderSegments_render:
  "list_all wellFormedPiece ps \<Longrightarrow>
     placeholderSegments (render ps) = concat (map pieceSegments ps)"
proof (induction ps)
  case Nil
  then show ?case by (simp add: render_def)
next
  case (Cons p ps)
  then have wf: "wellFormedPiece p" and ih: "placeholderSegments (render ps) = concat (map pieceSegments ps)"
    by simp_all
  show ?case
  proof (cases p)
    case (Text t)
    with wf ih show ?thesis
      using placeholderSegments_text [of t "render ps"] by (simp add: render_def)
  next
    case (Link w1 slugv w2 textv)
    with wf ih show ?thesis
      using placeholderSegments_link [of w1 slugv w2 textv "render ps"]
      by (simp add: render_def del: renderPiece.simps)
  qed
qed

lemma pageScore_truthy: "pageScore a p = Some sc \<Longrightarrow> truthyString (page_slug p)"
  by (auto simp: pageScore_def Let_def split: if_splits)

lemma bestMatchLoop_member:
  "bestMatchLoop a ps (best, hi) = (Some b, h) \<Longrightarrow>
     (b \<in> set ps \<and> truthyString (page_slug b)) \<or> best = Some b"
proof (induction ps arbitrary: best hi)
  case Nil
  then show ?case by simp
next
  case (Cons p ps)
  show ?case
  proof (cases "pageScore a p")
    case None
    with Cons.prems have "bestMatchLoop a ps (best, hi) = (Some b, h)" by simp
    from Cons.IH [OF this] show ?thesis by auto
  next
    case (Some sc)
    show ?thesis
    proof (cases "hi < sc")
      case True
      with Some Cons.prems have "bestMatchLoop a ps (Some p, sc) = (Some b, h)" by simp
      from Cons.IH [OF this] pageScore_truthy [OF Some] show ?thesis by auto
    next
      case False
      with Some Cons.prems have "bestMatchLoop a ps (best, hi) = (Some b, h)" by simp
      from Cons.IH [OF this] show ?thesis by auto
    qed
  qed
qed

lemma sanitizeText_clean: "CHR 0x22 \<notin> set t \<Longrightarrow> sanitizeText t = t"
  by (induction t) (auto simp: sanitizeText_def dquote_def)

lemma placeholder_render: "placeholder slugv textv = renderPiece (Link '' '' slugv '' '' textv)"
  by (simp add: placeholder_def)

lemma repairPlaceholder_piece:
  assumes wf: "wellFormedPiece (Link w1 slugv w2 textv)" and cl: "cleanSlugs availablePages"
  shows "\<exists>q. repairPlaceholder availablePages (renderPiece (Link w1 slugv w2 textv)) slugv textv
               = renderPiece q \<and> wellFormedPiece q \<and> knownLink availablePages q"
proof (cases "pagesBySlug_has availablePages slugv")
  case True
  then have "repairPlaceholder availablePages (renderPiece (Link w1 slugv w2 textv)) slugv textv
             = renderPiece (Link w1 slugv w2 textv)"
    by (simp add: repairPlaceholder_def del: renderPiece.simps)
  with wf True show ?thesis by (intro exI [of _ "Link w1 slugv w2 textv"]) simp
next
  case False
  obtain best h where bm: "bestMatchLoop (toLowerCase textv) availablePages (None, - 1) = (best, h)"
    by (cases "bestMatchLoop (toLowerCase textv) availablePages (None, - 1)") auto
  have tq: "CHR 0x22 \<notin> set textv" "CHR ''['' \<notin> set textv" "textv \<noteq> []"
    using wf by (auto simp: dquote_def)
  show ?thesis
  proof (cases "\<exists>b. best = Some b \<and> 50 < h")
    case True
    then obtain b where b: "best = Some b" "50 < h" by auto
    from bestMatchLoop_member [OF bm [unfolded b(1)]]
    have mem: "b \<in> set availablePages" and tr: "truthyString (page_slug b)" by auto
    from tr obtain sb where sb: "page_slug b = Some sb" "sb \<noteq> []"
      by (auto simp: truthyString_def split: option.splits)
    from cl mem sb have cs: "dquote \<notin> set sb" "CHR ''['' \<notin> set sb"
      by (auto simp: cleanSlugs_def)
    have "repairPlaceholder availablePages (renderPiece (Link w1 slugv w2 textv)) slugv textv
          = renderPiece (Link '' '' sb '' '' textv)"
      using False bm b sb tq
      by (simp add: repairPlaceholder_def sanitizeText_clean placeholder_render del: renderPiece.simps)
    moreover have "wellFormedPiece (Link '' '' sb '' '' textv)"
      using wf sb cs by (simp add: isWhitespace_def)
    moreover have "knownLink availablePages (Link '' '' sb '' '' textv)"
      using mem sb by (force simp: pagesBySlug_has_def)
    ultimately show ?thesis by blast
  next
    case no: False
    then have "repairPlaceholder availablePages (renderPiece (Link w1 slugv w2 textv)) slugv textv
          = renderPiece (Text textv)"
      using False bm
      by (cases best) (auto simp: repairPlaceholder_def simp del: renderPiece.simps(2))
    with tq show ?thesis by (intro exI [of _ "Text textv"]) simp
  qed
qed

lemma repairSegment_text: "concat (map (repairSegment availablePages \<circ> Lit) t) = t"
  by (induction t) (auto simp: repairSegment_def)

lemma repair_pieces:
  assumes cl: "cleanSlugs availablePages"
  shows "list_all wellFormedPiece ps \<Longrightarrow>
     \<exists>qs. concat (map (repairSegment availablePages) (concat (map pieceSegments ps))) = render qs \<and>
          list_all wellFormedPiece qs \<and> list_all (knownLink availablePages) qs"
proof (induction ps)
  case Nil
  show ?case by (intro exI [of _ "[]"]) (simp add: render_def)
next
  case (Cons p ps)
  then obtain qs where qs:
      "concat (map (repairSegment availablePages) (concat (map pieceSegments ps))) = render qs"
      "list_all wellFormedPiece qs" "list_all (knownLink availablePages) qs"
    by auto
  from Cons.prems have wf: "wellFormedPiece p" by simp
  have "\<exists>q. concat (map (repairSegment availablePages) (pieceSegments p)) = renderPiece q \<and>
            wellFormedPiece q \<and> knownLink availablePages q"
  proof (cases p)
    case (Text t)
    with wf show ?thesis
      by (intro exI [of _ "Text t"]) (simp add: repairSegment_text)
  next
    case (Link w1 slugv w2 textv)
    with repairPlaceholder_piece [OF _ cl, of w1 slugv w2 textv] wf show ?thesis
      by (simp add: repairSegment_def del: renderPiece.simps)
  qed
  then obtain q where q: "concat (map (repairSegment availablePages) (pieceSegments p)) = renderPiece q"
      "wellFormedPiece q" "knownLink availablePages q"
    by blast
  show ?case
    using q qs by (intro exI [of _ "q # qs"]) (simp add: render_def)
qed

lemma validateAndRepair_segments:
  "validateAndRepairInternalLinks content availablePages =
     (if content = [] \<or> availablePages = [] then content
      else concat (map (repairSegment availablePages) (placeholderSegments content)))"
  unfolding validateAndRepairInternalLinks_def repairSegment_def ..

lemma validateAndRepair_pieces:
  assumes "cleanSlugs availablePages" "list_all wellFormedPiece ps" "availablePages \<noteq> []"
  shows "\<exists>qs. validateAndRepairInternalLinks (render ps) availablePages = render qs \<and>
          list_all wellFormedPiece qs \<and> list_all (knownLink availablePages) qs"
proof -
  from repair_pieces [OF assms(1,2)] obtain qs where qs:
      "concat (map (repairSegment availablePages) (concat (map pieceSegments ps))) = render qs"
      "list_all wellFormedPiece qs" "list_all (knownLink availablePages) qs"
    by blast
  have "validateAndRepairInternalLinks (render ps) availablePages = render qs"
  proof (cases "render ps = []")
    case True
    then have "concat (map pieceSegments ps) = []"
      using placeholderSegments_render [OF assms(2)] by simp
    with qs(1) True show ?thesis by (simp add: validateAndRepairInternalLinks_def)
  next
    case False
    with assms(3) qs(1) show ?thesis
      by (simp add: validateAndRepair_segments placeholderSegments_render [OF assms(2)])
  qed
  with qs show ?thesis by blast
qed

lemma repair_known:
  "list_all wellFormedPiece ps \<Longrightarrow> list_all (knownLink availablePages) ps \<Longrightarrow>
     concat (map (repairSegment availablePages) (concat (map pieceSegments ps))) = render ps"
proof (induction ps)
  case Nil
  show ?case by (simp add: render_def)
next
  case (Cons p ps)
  then have ih: "concat (map (repairSegment availablePages) (concat (map pieceSegments ps))) = render ps"
    by simp
  have "concat (map (repairSegment availablePages) (pieceSegments p)) = renderPiece p"
  proof (cases p)
    case (Text t)
    then show ?thesis by (simp add: repairSegment_text)
  next
    case (Link w1 slugv w2 textv)
    with Cons.prems show ?thesis
      by (simp add: repairSegment_def repairPlaceholder_def del: renderPiece.simps)
  qed
  with ih show ?case by (simp add: render_def)
qed

lemma validateAndRepair_known:
  assumes "list_all wellFormedPiece ps" "list_all (knownLink availablePages) ps"
  shows "validateAndRepairInternalLinks (render ps) availablePages = render ps"
  using repair_known [OF assms]
  by (simp add: validateAndRepair_segments placeholderSegments_render [OF assms(1)])

text \<open>
  Claim C7, as amended. For a page list whose slugs hold no \<open>"\<close> and no \<open>[\<close>, and content
  made of text without \<open>[\<close> and of well-formed placeholders, a second pass of
  \<open>validateAndRepairInternalLinks\<close> with the same page list returns the output of the
  first: every placeholder the first pass keeps or forges names a known slug, and the
  anchor text it leaves behind for a dropped placeholder cannot start a new one.
\<close>

theorem validateAndRepairInternalLinks_idempotent:
  assumes "cleanSlugs availablePages" and "list_all wellFormedPiece ps"
  shows "validateAndRepairInternalLinks
           (validateAndRepairInternalLinks (render ps) availablePages) availablePages
         = validateAndRepairInternalLinks (render ps) availablePages"
proof (cases "availablePages = []")
  case True
  then show ?thesis by (simp add: validateAndRepairInternalLinks_def)
next
  case False
  from validateAndRepair_pieces [OF assms False] obtain qs where
    "validateAndRepairInternalLinks (render ps) availablePages = render qs"
    "list_all wellFormedPiece qs" "list_all (knownLink availablePages) qs"
    by blast
  then show ?thesis by (simp add: validateAndRepair_known)
qed

theorem validateAndRepairInternalLinks_idempotent_witness:
  \<open>validateAndRepairInternalLinks
     (validateAndRepairInternalLinks
        ''<p>See [INTERNAL_LINK slug="seo" text="The Ultimate SEO Guide"] and [INTERNAL_LINK slug="zz" text="cats"]</p>''
        [\<lparr>page_id = Some ''https://example.com/seo-guide'',
          page_title = Some ''the ultimate seo guide'', page_slug = Some ''seo-guide''\<rparr>])
     [\<lparr>page_id = Some ''https://example.com/seo-guide'',
       page_title = Some ''the ultimate seo guide'', page_slug = Some ''seo-guide''\<rparr>]
   = ''<p>See [INTERNAL_LINK slug="seo-guide" text="The Ultimate SEO Guide"] and cats</p>''\<close>
proof -
  let ?pages = "[\<lparr>page_id = Some ''https://example.com/seo-guide'',
                  page_title = Some ''the ultimate seo guide'', page_slug = Some ''seo-guide''\<rparr>]"
  let ?ps = "[Text ''<p>See '', Link '' '' ''seo'' '' '' ''The Ultimate SEO Guide'', Text '' and '',
              Link '' '' ''zz'' '' '' ''cats'', Text ''</p>'']"
  have c: "cleanSlugs ?pages" by (simp add: cleanSlugs_def dquote_def)
  have w: "list_all wellFormedPiece ?ps" by (simp add: isWhitespace_def dquote_def)
  have r: \<open>render ?ps =
    ''<p>See [INTERNAL_LINK slug="seo" text="The Ultimate SEO Guide"] and [INTERNAL_LINK slug="zz" text="cats"]</p>''\<close>
    by (simp add: render_def)
  have v: \<open>validateAndRepairInternalLinks
     ''<p>See [INTERNAL_LINK slug="seo" text="The Ultimate SEO Guide"] and [INTERNAL_LINK slug="zz" text="cats"]</p>''
     ?pages
   = ''<p>See [INTERNAL_LINK slug="seo-guide" text="The Ultimate SEO Guide"] and cats</p>''\<close>
    by code_simp
  from validateAndRepairInternalLinks_idempotent [OF c w] show ?thesis
    unfolding r v .
qed

subsection \<open>Resolution and sanitization of well-formed content\<close>









subsection \<open>The quota step on well-formed content\<close>






























subsection \<open>The sanitizer on well-formed content\<close>














text \<open>
  Why the conditions are there. With a page list at hand, a token that is never closed
  passes all four steps; the quota step can place a new placeholder inside the anchor
  text of an existing one, whose outer part then survives resolution and counts as valid
  for the sanitizer; a page title with a \<open>"\<close> in it gives a placeholder that the
  resolution does not match; and the quota step can place the placeholder of one page
  inside the placeholder that it has just written for another.
\<close>

theorem linkPipeline_survivors:
  \<open>linkPipeline (\<lambda>u. Some (u @ ''?utm_source=wp-content-optimizer&utm_medium=internal-link&utm_campaign=content-hub-automation''))
     [\<lparr>page_id = Some ''https://example.com/seo-guide'',
       page_title = Some ''the ultimate seo guide'', page_slug = Some ''seo-guide''\<rparr>]
     ''seo'' 8 ''<p>[INTERNAL_LINK slug="seo-guide"</p>''
   = Inr ''<p>[INTERNAL_LINK slug="seo-guide"</p>'' \<and>
   linkPipeline (\<lambda>u. Some (u @ ''?utm_source=wp-content-optimizer&utm_medium=internal-link&utm_campaign=content-hub-automation''))
     [\<lparr>page_id = Some ''https://example.com/seo-guide'',
       page_title = Some ''the ultimate seo guide'', page_slug = Some ''seo-guide''\<rparr>]
     ''seo'' 8 ''<p>[INTERNAL_LINK slug="seo-guide" text="read the ultimate seo guide now"]</p>''
   = Inr ''<p>[INTERNAL_LINK slug="seo-guide" text="read <a href="https://example.com/seo-guide?utm_source=wp-content-optimizer&utm_medium=internal-link&utm_campaign=content-hub-automation">the ultimate seo guide</a> now"]</p>'' \<and>
   linkPipeline (\<lambda>u. Some (u @ ''?utm_source=wp-content-optimizer&utm_medium=internal-link&utm_campaign=content-hub-automation''))
     [\<lparr>page_id = Some ''https://example.com/seo-guide'',
       page_title = Some ''the "ultimate" seo guide'', page_slug = Some ''seo-guide''\<rparr>]
     ''seo'' 8 ''<p>Read the "ultimate" seo guide now.</p>''
   = Inr ''<p>Read [INTERNAL_LINK slug="seo-guide" text="the "ultimate" seo guide"] now.</p>'' \<and>
   linkPipeline (\<lambda>u. Some (u @ ''?utm_source=wp-content-optimizer&utm_medium=internal-link&utm_campaign=content-hub-automation''))
     [\<lparr>page_id = Some ''https://example.com/a'',
       page_title = Some ''best seo guide for beginners'', page_slug = Some ''a''\<rparr>,
      \<lparr>page_id = Some ''https://example.com/b'',
       page_title = Some ''seo guide for'', page_slug = Some ''b''\<rparr>]
     ''seo'' 8 ''<p>Read the best seo guide for beginners now.</p>''
   = Inr ''<p>Read the [INTERNAL_LINK slug="a" text="best <a href="https://example.com/b?utm_source=wp-content-optimizer&utm_medium=internal-link&utm_campaign=content-hub-automation">seo guide for</a> beginners"] now.</p>''\<close>
  by code_simp


section \<open>Properties of extractJson\<close>

text \<open>
  Claim C2, evaluated at its input. The scan counts the brackets of the outermost kind
  only, so the open array goes unnoticed: one \<open>}\<close> is appended, the candidate
  \<open>{"a":1,"b":[1,2}\<close> does not parse, the comma repair changes nothing, and the function
  raises.
\<close>

theorem extractJson_truncated_array:
  \<open>extractJson ''{"a":1,"b":[1,2'' =
     Inl (Error ''Unable to parse JSON from AI response after multiple repair attempts.'') \<and>
   jsonCandidate ''{"a":1,"b":[1,2'' = ''{"a":1,"b":[1,2}'' \<and>
   \<not> jsonParses ''{"a":1,"b":[1,2}'' \<and> jsonParses ''{"a":1,"b":[1,2]}''\<close>
  by code_simp

text \<open>
  The round trip fails for a JSON number inside a fenced block, and for a JSON object
  behind prose that holds a brace.
\<close>

theorem extractJson_round_trip_fails:
  \<open>jsonParses ''42'' \<and>
   extractJson (fence @ ''json'' @ [CHR 0x0A] @ ''42'' @ [CHR 0x0A] @ fence) =
     Inl (Error ''No JSON object/array found. Ensure your prompt requests JSON output only without markdown.'') \<and>
   jsonParses ''{"a":1}'' \<and>
   extractJson (''Result {final}: '' @ ''{"a":1}'') =
     Inl (Error ''Unable to parse JSON from AI response after multiple repair attempts.'')\<close>
  by code_simp

subsection \<open>The recogniser and the bracket scan\<close>

lemma ws_plain: "isJsonWhitespace c \<Longrightarrow> plainChar c"
  by (auto simp: isJsonWhitespace_def plainChar_def)

lemma digit_plain: "isDigit c \<Longrightarrow> plainChar c"
  by (auto simp: isDigit_def plainChar_def)

lemma hex_plain: "isHexDigit c \<Longrightarrow> plainChar c"
  by (auto simp: isHexDigit_def plainChar_def)

lemma inStr_simps [simp]:
  "inStr Value = False" "inStr ArrayStart = False" "inStr ObjectStart = False" "inStr Key = False"
  "inStr Colon = False" "inStr After = False" "inStr (InString k) = True" "inStr (Escape k) = True"
  "inStr (Hex n k) = True" "inStr (Literal r) = False" "inStr Minus = False" "inStr Zero = False"
  "inStr IntDigits = False" "inStr FracStart = False" "inStr FracDigits = False"
  "inStr ExpStart = False" "inStr ExpSign = False" "inStr ExpDigits = False"
  by (simp_all add: inStr_def)

lemma escaped_simps [simp]:
  "escaped Value = False" "escaped ArrayStart = False" "escaped ObjectStart = False"
  "escaped Key = False" "escaped Colon = False" "escaped After = False"
  "escaped (InString k) = False" "escaped (Escape k) = True" "escaped (Hex n k) = False"
  "escaped (Literal r) = False" "escaped Minus = False" "escaped Zero = False"
  "escaped IntDigits = False" "escaped FracStart = False" "escaped FracDigits = False"
  "escaped ExpStart = False" "escaped ExpSign = False" "escaped ExpDigits = False"
  by (simp_all add: escaped_def)

lemma plain_simps [simp]:
  "plainChar CHR '':''" "plainChar CHR '',''" "plainChar CHR ''.''" "plainChar CHR ''e''"
  "plainChar CHR ''E''" "plainChar CHR ''+''" "plainChar CHR ''-''" "plainChar CHR ''0''"
  "plainChar CHR ''t''" "plainChar CHR ''f''" "plainChar CHR ''n''"
  by (simp_all add: plainChar_def)

lemma shape_plain:
  "plainChar c \<Longrightarrow> \<not> inStr m \<Longrightarrow> \<not> escaped m \<Longrightarrow> \<not> inStr m' \<Longrightarrow> \<not> escaped m' \<Longrightarrow>
     stepShape m st c m' st"
  by (simp add: stepShape_def)

lemma shape_open_object:
  "\<not> inStr m \<Longrightarrow> \<not> escaped m \<Longrightarrow> stepShape m st (CHR ''{'') ObjectStart (InObject # st)"
  by (simp add: stepShape_def)

lemma shape_open_array:
  "\<not> inStr m \<Longrightarrow> \<not> escaped m \<Longrightarrow> stepShape m st (CHR ''['') ArrayStart (InArray # st)"
  by (simp add: stepShape_def)

lemma shape_close_object:
  "\<not> inStr m \<Longrightarrow> \<not> escaped m \<Longrightarrow> stepShape m (InObject # r) (CHR ''}'') After r"
  by (simp add: stepShape_def)

lemma shape_close_array:
  "\<not> inStr m \<Longrightarrow> \<not> escaped m \<Longrightarrow> stepShape m (InArray # r) (CHR '']'') After r"
  by (simp add: stepShape_def)

lemma shape_quote:
  "\<not> escaped m \<Longrightarrow> \<not> escaped m' \<Longrightarrow> inStr m' = (\<not> inStr m) \<Longrightarrow> stepShape m st (CHR 0x22) m' st"
  by (simp add: stepShape_def)

lemma shape_escaped:
  "escaped m \<Longrightarrow> inStr m \<Longrightarrow> inStr m' \<Longrightarrow> \<not> escaped m' \<Longrightarrow> stepShape m st c m' st"
  by (simp add: stepShape_def)

lemma shape_backslash:
  "\<not> escaped m \<Longrightarrow> inStr m \<Longrightarrow> inStr m' \<Longrightarrow> escaped m' \<Longrightarrow> stepShape m st (CHR 0x5C) m' st"
  by (simp add: stepShape_def)

lemma shape_string:
  "c \<noteq> CHR 0x22 \<Longrightarrow> c \<noteq> CHR 0x5C \<Longrightarrow> inStr m \<Longrightarrow> \<not> escaped m \<Longrightarrow> inStr m' \<Longrightarrow> \<not> escaped m' \<Longrightarrow>
     stepShape m st c m' st"
  by (simp add: stepShape_def)

lemmas shapeI = shape_plain shape_open_object shape_open_array shape_close_object
  shape_close_array shape_quote shape_escaped shape_backslash shape_string

lemma afterValue_shape:
  assumes "afterValue st c = Some (m', st')" "\<not> inStr m" "\<not> escaped m"
  shows "stepShape m st c m' st' \<and> modeOk (m', st')"
proof (cases "isJsonWhitespace c")
  case True
  with assms ws_plain [OF True] show ?thesis
    by (simp add: afterValue_def modeOk_def shape_plain)
next
  case False
  show ?thesis
  proof (cases st)
    case Nil
    with assms False show ?thesis by (simp add: afterValue_def)
  next
    case (Cons fr r)
    show ?thesis
    proof (cases fr)
      case InObject
      with assms False Cons have
        "(c = CHR '','' \<and> m' = Key \<and> st' = st) \<or> (c = CHR ''}'' \<and> m' = After \<and> st' = r)"
        by (auto simp: afterValue_def split: if_splits)
      with assms(2,3) Cons InObject show ?thesis
        by (auto simp: modeOk_def intro: shapeI)
    next
      case InArray
      with assms False Cons have
        "(c = CHR '','' \<and> m' = Value \<and> st' = st) \<or> (c = CHR '']'' \<and> m' = After \<and> st' = r)"
        by (auto simp: afterValue_def split: if_splits)
      with assms(2,3) Cons InArray show ?thesis
        by (auto simp: modeOk_def intro: shapeI)
    qed
  qed
qed

lemma startValue_shape:
  assumes "startValue st c = Some (m', st')" "\<not> inStr m" "\<not> escaped m"
  shows "stepShape m st c m' st' \<and> modeOk (m', st')"
proof -
  from assms(1) have
    "(c = CHR ''{'' \<and> m' = ObjectStart \<and> st' = InObject # st) \<or>
     (c = CHR ''['' \<and> m' = ArrayStart \<and> st' = InArray # st) \<or>
     (c = CHR 0x22 \<and> m' = InString False \<and> st' = st) \<or>
     (c = CHR ''-'' \<and> m' = Minus \<and> st' = st) \<or>
     (c = CHR ''0'' \<and> m' = Zero \<and> st' = st) \<or>
     (isDigit c \<and> m' = IntDigits \<and> st' = st) \<or>
     (c = CHR ''t'' \<and> m' = Literal ''rue'' \<and> st' = st) \<or>
     (c = CHR ''f'' \<and> m' = Literal ''alse'' \<and> st' = st) \<or>
     (c = CHR ''n'' \<and> m' = Literal ''ull'' \<and> st' = st)"
    by (simp add: startValue_def dquote_def split: if_splits)
  with assms(2,3) show ?thesis
    by (auto simp: modeOk_def plainChar_def intro: shapeI digit_plain)
qed

lemma step_shape:
  assumes "jsonStep (m, st) c = Some (m', st')" "modeOk (m, st)"
  shows "stepShape m st c m' st' \<and> modeOk (m', st')"
proof (cases m)
  case Value
  show ?thesis
  proof (cases "isJsonWhitespace c")
    case True
    with assms Value ws_plain [OF True] show ?thesis
      by (simp add: modeOk_def shape_plain)
  next
    case False
    with assms Value have "startValue st c = Some (m', st')" by simp
    from startValue_shape [OF this, of m] Value show ?thesis by simp
  qed
next
  case ArrayStart
  from assms(2) ArrayStart obtain r where st: "st = InArray # r"
    by (cases st) (auto simp: modeOk_def)
  show ?thesis
  proof (cases "isJsonWhitespace c")
    case True
    with assms ArrayStart ws_plain [OF True] st show ?thesis
      by (simp add: modeOk_def shape_plain)
  next
    case False
    show ?thesis
    proof (cases "c = CHR '']''")
      case True
      with assms ArrayStart st False show ?thesis
        by (simp add: modeOk_def shape_close_array)
    next
      case nc: False
      with False assms ArrayStart have "startValue st c = Some (m', st')" by simp
      from startValue_shape [OF this, of m] ArrayStart show ?thesis by simp
    qed
  qed
next
  case ObjectStart
  from assms(2) ObjectStart obtain r where st: "st = InObject # r"
    by (cases st) (auto simp: modeOk_def)
  from assms(1) ObjectStart st have
    "(isJsonWhitespace c \<and> m' = ObjectStart \<and> st' = st) \<or>
     (c = CHR ''}'' \<and> m' = After \<and> st' = r) \<or>
     (c = CHR 0x22 \<and> m' = InString True \<and> st' = st)"
    by (simp add: dquote_def split: if_splits)
  with ObjectStart st show ?thesis
    by (auto simp: modeOk_def intro: shapeI ws_plain)
next
  case Key
  from assms(1) Key have
    "(isJsonWhitespace c \<and> m' = Key \<and> st' = st) \<or> (c = CHR 0x22 \<and> m' = InString True \<and> st' = st)"
    by (simp add: dquote_def split: if_splits)
  with Key show ?thesis
    by (auto simp: modeOk_def intro: shapeI ws_plain)
next
  case Colon
  from assms(1) Colon have
    "(isJsonWhitespace c \<and> m' = Colon \<and> st' = st) \<or> (c = CHR '':'' \<and> m' = Value \<and> st' = st)"
    by (simp split: if_splits)
  with Colon show ?thesis
    by (auto simp: modeOk_def intro: shapeI ws_plain)
next
  case After
  with assms have "afterValue st c = Some (m', st')" by simp
  from afterValue_shape [OF this, of m] After show ?thesis by simp
next
  case (InString k)
  from assms(1) InString have
    "(c = CHR 0x22 \<and> (m' = Colon \<or> m' = After) \<and> st' = st) \<or>
     (c = CHR 0x5C \<and> m' = Escape k \<and> st' = st) \<or>
     (c \<noteq> CHR 0x22 \<and> c \<noteq> CHR 0x5C \<and> m' = InString k \<and> st' = st)"
    by (auto simp: dquote_def split: if_splits)
  with InString show ?thesis
    by (auto simp: modeOk_def intro: shapeI)
next
  case (Escape k)
  from assms(1) Escape have "(m' = InString k \<or> m' = Hex 4 k) \<and> st' = st"
    by (auto split: if_splits)
  with Escape show ?thesis
    by (auto simp: modeOk_def intro: shapeI)
next
  case (Hex n k)
  from assms(1) Hex have "isHexDigit c \<and> (m' = InString k \<or> m' = Hex (n - 1) k) \<and> st' = st"
    by (auto split: if_splits)
  with Hex hex_plain [of c] show ?thesis
    by (auto simp: modeOk_def plainChar_def intro: shapeI)
next
  case (Literal r)
  show ?thesis
  proof (cases r)
    case Nil
    with assms Literal show ?thesis by simp
  next
    case (Cons x xs)
    with assms Literal have c: "c = x" "plainChar c" "list_all plainChar xs"
        "(m' = After \<or> m' = Literal xs) \<and> st' = st"
      by (auto simp: modeOk_def split: if_splits)
    with Literal show ?thesis
      by (auto simp: modeOk_def intro: shapeI)
  qed
next
  case Minus
  from assms(1) Minus have
    "(c = CHR ''0'' \<and> m' = Zero \<and> st' = st) \<or> (isDigit c \<and> m' = IntDigits \<and> st' = st)"
    by (simp split: if_splits)
  with Minus show ?thesis
    by (auto simp: modeOk_def intro: shapeI digit_plain)
next
  case Zero
  show ?thesis
  proof (cases "c = CHR ''.'' \<or> c = CHR ''e'' \<or> c = CHR ''E''")
    case True
    with assms(1) Zero have "(m' = FracStart \<or> m' = ExpStart) \<and> st' = st \<and> plainChar c"
      by (auto split: if_splits)
    with Zero show ?thesis
      by (auto simp: modeOk_def intro: shapeI)
  next
    case False
    with assms Zero have "afterValue st c = Some (m', st')" by simp
    from afterValue_shape [OF this, of m] Zero show ?thesis by simp
  qed
next
  case IntDigits
  show ?thesis
  proof (cases "isDigit c \<or> c = CHR ''.'' \<or> c = CHR ''e'' \<or> c = CHR ''E''")
    case True
    with assms(1) IntDigits digit_plain [of c]
    have "(m' = IntDigits \<or> m' = FracStart \<or> m' = ExpStart) \<and> st' = st \<and> plainChar c"
      by (auto split: if_splits)
    with IntDigits show ?thesis
      by (auto simp: modeOk_def intro: shapeI)
  next
    case False
    with assms IntDigits have "afterValue st c = Some (m', st')" by simp
    from afterValue_shape [OF this, of m] IntDigits show ?thesis by simp
  qed
next
  case FracStart
  from assms(1) FracStart have "isDigit c \<and> m' = FracDigits \<and> st' = st"
    by (simp split: if_splits)
  with FracStart show ?thesis
    by (auto simp: modeOk_def intro: shapeI digit_plain)
next
  case FracDigits
  show ?thesis
  proof (cases "isDigit c \<or> c = CHR ''e'' \<or> c = CHR ''E''")
    case True
    with assms(1) FracDigits digit_plain [of c]
    have "(m' = FracDigits \<or> m' = ExpStart) \<and> st' = st \<and> plainChar c"
      by (auto split: if_splits)
    with FracDigits show ?thesis
      by (auto simp: modeOk_def intro: shapeI)
  next
    case False
    with assms FracDigits have "afterValue st c = Some (m', st')" by simp
    from afterValue_shape [OF this, of m] FracDigits show ?thesis by simp
  qed
next
  case ExpStart
  from assms(1) ExpStart digit_plain [of c]
  have "(m' = ExpSign \<or> m' = ExpDigits) \<and> st' = st \<and> plainChar c"
    by (auto split: if_splits)
  with ExpStart show ?thesis
    by (auto simp: modeOk_def intro: shapeI)
next
  case ExpSign
  from assms(1) ExpSign have "isDigit c \<and> m' = ExpDigits \<and> st' = st"
    by (simp split: if_splits)
  with ExpSign show ?thesis
    by (auto simp: modeOk_def intro: shapeI digit_plain)
next
  case ExpDigits
  show ?thesis
  proof (cases "isDigit c")
    case True
    with assms(1) ExpDigits have "m' = ExpDigits \<and> st' = st" by simp
    with ExpDigits True show ?thesis
      by (auto simp: modeOk_def intro: shapeI digit_plain)
  next
    case False
    with assms ExpDigits have "afterValue st c = Some (m', st')" by simp
    from afterValue_shape [OF this, of m] ExpDigits show ?thesis by simp
  qed
qed

lemma count_bottom: "st \<noteq> [] \<Longrightarrow> last st = fr \<Longrightarrow> 0 < count_list st fr"
  using count_list_0_iff [of st fr] last_in_set [of st] by auto

lemma brackets_cases:
  assumes "bracketsOf fr = (startChar, endChar)"
  shows "(fr = InObject \<and> startChar = CHR ''{'' \<and> endChar = CHR ''}'') \<or>
         (fr = InArray \<and> startChar = CHR ''['' \<and> endChar = CHR '']'')"
  using assms by (cases fr) (auto simp: bracketsOf_def)

lemma scan_step:
  assumes sh: "stepShape m st c m' st'"
    and br: "bracketsOf fr = (startChar, endChar)"
    and ne: "st \<noteq> []" and bottom: "last st = fr"
  shows "scanBalance startChar endChar i (int (count_list st fr)) (inStr m) (escaped m) (c # rest) =
           (if st' = [] then (Some i, 0)
            else scanBalance startChar endChar (i + 1) (int (count_list st' fr)) (inStr m') (escaped m') rest)
         \<and> (st' \<noteq> [] \<longrightarrow> last st' = fr) \<and> (st' = [] \<longrightarrow> m' = After)"
proof -
  have pos: "0 < count_list st fr" by (rule count_bottom [OF ne bottom])
  note bc = brackets_cases [OF br]
  show ?thesis
    using sh unfolding stepShape_def
  proof (elim disjE conjE, goal_cases)
    case 1
    with bc pos ne bottom show ?case
      by (auto simp: plainChar_def dquote_def)
  next
    case 2
    with bc pos ne bottom show ?case
      by (auto simp: dquote_def add.commute)
  next
    case 3
    with bc pos ne bottom show ?case
      by (auto simp: dquote_def add.commute)
  next
    case 4
    show ?case
    proof (cases "st' = []")
      case True
      with 4 bc bottom show ?thesis by (auto simp: dquote_def)
    next
      case False
      with 4 bottom have l: "last st' = fr" by simp
      from count_bottom [OF False l] 4 bc False l show ?thesis
        by (auto simp: dquote_def)
    qed
  next
    case 5
    show ?case
    proof (cases "st' = []")
      case True
      with 5 bc bottom show ?thesis by (auto simp: dquote_def)
    next
      case False
      with 5 bottom have l: "last st' = fr" by simp
      from count_bottom [OF False l] 5 bc False l show ?thesis
        by (auto simp: dquote_def)
    qed
  next
    case 6
    with bc pos ne bottom show ?case
      by (auto simp: dquote_def)
  next
    case 7
    with ne bottom show ?case by simp
  next
    case 8
    with ne bottom show ?case by simp
  next
    case 9
    with ne bottom show ?case by (simp add: dquote_def)
  qed
qed

lemma run_after_empty:
  "jsonRun (After, []) cs = Some fin \<Longrightarrow> list_all isJsonWhitespace cs"
proof (induction cs)
  case Nil
  show ?case by simp
next
  case (Cons c cs)
  then have "isJsonWhitespace c \<and> jsonRun (After, []) cs = Some fin"
    by (auto simp: afterValue_def split: option.splits if_splits)
  with Cons.IH show ?case by simp
qed

lemma scan_sim:
  assumes br: "bracketsOf fr = (startChar, endChar)"
  shows "jsonRun (m, st) cs = Some fin \<Longrightarrow> complete fin \<Longrightarrow> modeOk (m, st) \<Longrightarrow> st \<noteq> [] \<Longrightarrow>
         last st = fr \<Longrightarrow> cs \<noteq> [] \<longrightarrow> \<not> isJsonWhitespace (last cs) \<Longrightarrow>
         scanBalance startChar endChar i (int (count_list st fr)) (inStr m) (escaped m) (cs @ q) =
           (Some (i + length cs - 1), 0)"
proof (induction cs arbitrary: m st i)
  case Nil
  then show ?case by (auto simp: complete_def)
next
  case (Cons c cs)
  from Cons.prems(1) obtain m' st' where
    step: "jsonStep (m, st) c = Some (m', st')" and run: "jsonRun (m', st') cs = Some fin"
    by (auto split: option.splits)
  from step_shape [OF step Cons.prems(3)] have sh: "stepShape m st c m' st'" and ok: "modeOk (m', st')"
    by simp_all
  from scan_step [OF sh br Cons.prems(4,5), of i "cs @ q"]
  have sc: "scanBalance startChar endChar i (int (count_list st fr)) (inStr m) (escaped m) (c # cs @ q) =
           (if st' = [] then (Some i, 0)
            else scanBalance startChar endChar (i + 1) (int (count_list st' fr)) (inStr m') (escaped m') (cs @ q))"
    and bottom: "st' \<noteq> [] \<longrightarrow> last st' = fr"
    and after: "st' = [] \<longrightarrow> m' = After"
    by simp_all
  show ?case
  proof (cases "st' = []")
    case True
    with after run have "list_all isJsonWhitespace cs" by (auto dest: run_after_empty)
    with Cons.prems(6) have "cs = []"
      by (cases cs rule: rev_cases) auto
    with sc True show ?thesis by simp
  next
    case False
    with bottom have l: "last st' = fr" by simp
    have w: "cs \<noteq> [] \<longrightarrow> \<not> isJsonWhitespace (last cs)" using Cons.prems(6) by auto
    from Cons.IH [OF run Cons.prems(2) ok False l w, of "i + 1"] sc False
    show ?thesis by simp
  qed
qed

lemma jsonCandidate_start:
  assumes "jsonRun (Value, []) (b # J') = Some fin" "complete fin"
    and "\<not> isJsonWhitespace (last (b # J'))"
    and "startValue [] b = Some (m0, [fr])" "modeOk (m0, [fr])" "bracketsOf fr = (b, endChar)"
    and "\<not> inStr m0" "\<not> escaped m0"
  shows "scanBalance b endChar 1 1 False False (J' @ q) = (Some (length J'), 0)"
proof -
  have nw: "\<not> isJsonWhitespace b"
    using assms(6) by (cases fr) (auto simp: bracketsOf_def isJsonWhitespace_def)
  with assms(1,4) have run: "jsonRun (m0, [fr]) J' = Some fin" by simp
  have ne: "J' \<noteq> []" using run assms(2) by (auto simp: complete_def)
  with assms(3) have lw: "J' \<noteq> [] \<longrightarrow> \<not> isJsonWhitespace (last J')" by simp
  have "scanBalance b endChar 1 (int (count_list [fr] fr)) (inStr m0) (escaped m0) (J' @ q)
        = (Some (1 + length J' - 1), 0)"
    by (rule scan_sim [OF assms(6) run assms(2) assms(5) _ _ lw]) simp_all
  with assms(7,8) show ?thesis by simp
qed

lemma jsonCandidate_exact:
  assumes "jsonParses J" "jsonCore J"
  shows "jsonCandidate (J @ q) = J"
proof -
  from assms(2) obtain b J' where J: "J = b # J'" and b: "b = CHR ''{'' \<or> b = CHR ''[''"
    by (cases J) (auto simp: jsonCore_def)
  from assms(2) have lw: "\<not> isJsonWhitespace (last (b # J'))"
    unfolding J by (auto simp: jsonCore_def isJsonWhitespace_def)
  from assms(1) obtain fin where run0: "jsonRun (Value, []) (b # J') = Some fin" and fin: "complete fin"
    unfolding J jsonParses_def by (auto split: option.splits)
  from b show ?thesis
  proof
    assume o: "b = CHR ''{''"
    have "scanBalance b (CHR ''}'') 1 1 False False (J' @ q) = (Some (length J'), 0)"
      by (rule jsonCandidate_start [OF run0 fin lw, where ?m0.0 = ObjectStart and fr = InObject])
         (simp_all add: o startValue_def modeOk_def bracketsOf_def)
    then show ?thesis by (simp add: jsonCandidate_def J o)
  next
    assume a: "b = CHR ''[''"
    have "scanBalance b (CHR '']'') 1 1 False False (J' @ q) = (Some (length J'), 0)"
      by (rule jsonCandidate_start [OF run0 fin lw, where ?m0.0 = ArrayStart and fr = InArray])
         (simp_all add: a startValue_def modeOk_def bracketsOf_def)
    then show ?thesis by (simp add: jsonCandidate_def J a)
  qed
qed

lemma noBracket_subset: "noBracket p \<Longrightarrow> set p' \<subseteq> set p \<Longrightarrow> noBracket p'"
  by (auto simp: noBracket_def)

lemma take_front:
  assumes "b \<notin> set (take n (p @ b # r))"
  shows "n \<le> length p"
proof (rule ccontr)
  assume "\<not> n \<le> length p"
  then obtain k where "n - length p = Suc k" by (cases "n - length p") auto
  then have "b \<in> set (take n (p @ b # r))" by simp
  with assms show False by simp
qed

lemma prefix_front:
  assumes "prefix x (p @ b # r)" "b \<notin> set x"
  shows "\<exists>p1. p = x @ p1"
proof -
  from assms(1) obtain zs where "p @ b # r = x @ zs" by (auto simp: prefix_def)
  then have t: "take (length x) (p @ b # r) = x" by (metis append_eq_conv_conj)
  have "b \<notin> set (take (length x) (p @ b # r))" unfolding t by (rule assms(2))
  then have "length x \<le> length p" by (rule take_front)
  with t have "take (length x) p = x" by simp
  then have "p = x @ drop (length x) p" by (metis append_take_drop_id)
  then show ?thesis ..
qed

lemma stripPrefix_front:
  assumes "stripPrefix x (p @ b # r) = Some r0" "b \<notin> set x"
  shows "\<exists>p1. p = x @ p1 \<and> r0 = p1 @ b # r"
proof -
  from assms(1) have px: "prefix x (p @ b # r)" and r0: "r0 = drop (length x) (p @ b # r)"
    by (auto simp: stripPrefix_def split: if_splits)
  from prefix_front [OF px assms(2)] obtain p1 where "p = x @ p1" ..
  with r0 show ?thesis by simp
qed

lemma dropWhile_front: "\<not> P b \<Longrightarrow> dropWhile P (p @ b # r) = dropWhile P p @ b # r"
  by (induction p) auto

lemma dropWhile_back:
  "\<not> P e \<Longrightarrow> rev (dropWhile P (rev (l @ e # q))) = l @ e # rev (dropWhile P (rev q))"
  using dropWhile_front [of P e "rev q" "rev l"] by simp

lemma stripOpeningFence_front:
  assumes "b = CHR ''{'' \<or> b = CHR ''[''"
  shows "\<exists>p'. stripOpeningFence (p @ b # r) = p' @ b # r \<and> set p' \<subseteq> set p"
proof (cases "stripPrefix fence (p @ b # r)")
  case None
  then show ?thesis by (auto simp: stripOpeningFence_def)
next
  case (Some r0)
  have nb: "\<not> isWhitespace b" using assms by (auto simp: isWhitespace_def)
  from stripPrefix_front [OF Some] assms obtain p1 where p1: "p = fence @ p1" "r0 = p1 @ b # r"
    by (auto simp: fence_def)
  show ?thesis
  proof (cases "stripPrefix ''json'' r0")
    case None
    with Some p1 have "stripOpeningFence (p @ b # r) = dropWhile isWhitespace p1 @ b # r"
      by (simp add: stripOpeningFence_def dropWhile_front [of isWhitespace b, OF nb])
    moreover have "set (dropWhile isWhitespace p1) \<subseteq> set p"
      using p1(1) set_dropWhileD [of _ isWhitespace p1] by auto
    ultimately show ?thesis by blast
  next
    case (Some r1)
    from stripPrefix_front [OF Some [unfolded p1(2)]] assms obtain p2 where
      p2: "p1 = ''json'' @ p2" "r1 = p2 @ b # r"
      by auto
    with Some \<open>stripPrefix fence (p @ b # r) = Some r0\<close>
    have "stripOpeningFence (p @ b # r) = dropWhile isWhitespace p2 @ b # r"
      by (simp add: stripOpeningFence_def dropWhile_front [of isWhitespace b, OF nb])
    moreover have "set (dropWhile isWhitespace p2) \<subseteq> set p"
      using p1(1) p2(1) set_dropWhileD [of _ isWhitespace p2] by auto
    ultimately show ?thesis by blast
  qed
qed

lemma stripClosingFence_back:
  assumes "e = CHR ''}'' \<or> e = CHR '']''"
  shows "\<exists>q'. stripClosingFence (l @ e # q) = l @ e # q'"
proof (cases "suffix fence (l @ e # q)")
  case False
  then show ?thesis by (auto simp: stripClosingFence_def)
next
  case True
  have ne: "\<not> isWhitespace e" using assms by (auto simp: isWhitespace_def)
  from True have "prefix (rev fence) (rev q @ e # rev l)"
    by (simp add: suffix_to_prefix)
  from prefix_front [OF this] assms obtain q1 where "rev q = rev fence @ q1"
    by (auto simp: fence_def)
  then have q: "q = rev q1 @ fence" by (metis rev_append rev_rev_ident)
  have "take (length (l @ e # q) - length fence) (l @ e # q) = l @ e # rev q1"
    unfolding q by simp
  with True have "stripClosingFence (l @ e # q) = l @ e # rev (dropWhile isWhitespace (rev (rev q1)))"
    by (simp only: stripClosingFence_def if_True dropWhile_back [of isWhitespace e, OF ne])
  then show ?thesis ..
qed

lemma trim_wrapped:
  assumes "\<not> isWhitespace b" "\<not> isWhitespace e"
  shows "\<exists>p' q'. trim (p @ b # mid @ e # q) = p' @ b # mid @ e # q' \<and> set p' \<subseteq> set p"
proof -
  have "dropWhile isWhitespace (p @ b # mid @ e # q) = dropWhile isWhitespace p @ b # mid @ e # q"
    by (rule dropWhile_front [of isWhitespace b, OF assms(1)])
  moreover have "rev (dropWhile isWhitespace (rev ((dropWhile isWhitespace p @ b # mid) @ e # q)))
      = (dropWhile isWhitespace p @ b # mid) @ e # rev (dropWhile isWhitespace (rev q))"
    by (rule dropWhile_back [of isWhitespace e, OF assms(2)])
  ultimately have "trim (p @ b # mid @ e # q) =
      dropWhile isWhitespace p @ b # mid @ e # rev (dropWhile isWhitespace (rev q))"
    by (simp add: trim_def)
  moreover have "set (dropWhile isWhitespace p) \<subseteq> set p"
    using set_dropWhileD [of _ isWhitespace p] by auto
  ultimately show ?thesis by blast
qed

lemma canon_bracket:
  "b = CHR ''{'' \<or> b = CHR ''['' \<Longrightarrow> canonicalize b \<notin> set (map canonicalize ''json'')"
  by (auto simp: canonicalize_def isLowerChar_def)

lemma matchJsonFence_front:
  assumes "matchJsonFence (p @ b # r) = Some rest" "b = CHR ''{'' \<or> b = CHR ''[''"
  shows "\<exists>p2. rest = p2 @ b # r \<and> length p2 < length p \<and> set p2 \<subseteq> set p"
proof -
  from assms(1) obtain r0 where r0: "stripPrefix fence (p @ b # r) = Some r0"
    and c: "map canonicalize (take 4 r0) = map canonicalize ''json''"
    and rest: "rest = dropWhile isWhitespace (drop 4 r0)"
    by (auto simp: matchJsonFence_def split: option.splits if_splits)
  from stripPrefix_front [OF r0] assms(2) obtain p1 where p1: "p = fence @ p1" "r0 = p1 @ b # r"
    by (auto simp: fence_def)
  have "b \<notin> set (take 4 r0)"
  proof
    assume "b \<in> set (take 4 r0)"
    then have "canonicalize b \<in> set (map canonicalize (take 4 r0))" by simp
    with c canon_bracket [OF assms(2)] show False by simp
  qed
  then have len: "4 \<le> length p1" unfolding p1(2) by (rule take_front)
  have nb: "\<not> isWhitespace b" using assms(2) by (auto simp: isWhitespace_def)
  from len have "drop 4 r0 = drop 4 p1 @ b # r" unfolding p1(2) by simp
  then have "rest = dropWhile isWhitespace (drop 4 p1) @ b # r"
    unfolding rest by (simp add: dropWhile_front [of isWhitespace b, OF nb])
  moreover have "length (dropWhile isWhitespace (drop 4 p1)) < length p"
    using length_dropWhile_le [of isWhitespace "drop 4 p1"] p1(1) by (simp add: fence_def)
  moreover have "set (dropWhile isWhitespace (drop 4 p1)) \<subseteq> set p"
    using set_dropWhileD [of _ isWhitespace "drop 4 p1"] in_set_dropD [of _ 4 p1] p1(1) by auto
  ultimately show ?thesis by blast
qed

lemma removeJsonFences_front:
  assumes b: "b = CHR ''{'' \<or> b = CHR ''[''"
  shows "\<exists>p'. removeJsonFences (p @ b # r) = p' @ removeJsonFences (b # r) \<and> set p' \<subseteq> set p"
proof (induction p rule: length_induct)
  case (1 p)
  show ?case
  proof (cases p)
    case Nil
    then show ?thesis by simp
  next
    case (Cons c p1)
    show ?thesis
    proof (cases "matchJsonFence (p @ b # r)")
      case None
      from 1 Cons obtain p'' where
        "removeJsonFences (p1 @ b # r) = p'' @ removeJsonFences (b # r)" "set p'' \<subseteq> set p1"
        by (metis length_Cons lessI)
      with None Cons have "removeJsonFences (p @ b # r) = (c # p'') @ removeJsonFences (b # r)"
          "set (c # p'') \<subseteq> set p"
        by auto
      then show ?thesis by blast
    next
      case (Some rest)
      from matchJsonFence_front [OF Some b] obtain p2 where
        p2: "rest = p2 @ b # r" "length p2 < length p" "set p2 \<subseteq> set p"
        by blast
      from 1 p2(2) obtain p'' where
        "removeJsonFences (p2 @ b # r) = p'' @ removeJsonFences (b # r)" "set p'' \<subseteq> set p2"
        by blast
      with Some Cons p2 have "removeJsonFences (p @ b # r) = p'' @ removeJsonFences (b # r)"
          "set p'' \<subseteq> set p"
        by auto
      then show ?thesis by blast
    qed
  qed
qed

lemma stripFence_front:
  assumes "stripPrefix fence (p @ b # r) = Some r0" "b = CHR ''{'' \<or> b = CHR ''[''"
  shows "\<exists>p2. dropWhile isWhitespace r0 = p2 @ b # r \<and> length p2 < length p \<and> set p2 \<subseteq> set p"
proof -
  from stripPrefix_front [OF assms(1)] assms(2) obtain p1 where p1: "p = fence @ p1" "r0 = p1 @ b # r"
    by (auto simp: fence_def)
  have nb: "\<not> isWhitespace b" using assms(2) by (auto simp: isWhitespace_def)
  have "dropWhile isWhitespace r0 = dropWhile isWhitespace p1 @ b # r"
    unfolding p1(2) by (rule dropWhile_front [of isWhitespace b, OF nb])
  moreover have "length (dropWhile isWhitespace p1) < length p"
    using length_dropWhile_le [of isWhitespace p1] p1(1) by (simp add: fence_def)
  moreover have "set (dropWhile isWhitespace p1) \<subseteq> set p"
    using set_dropWhileD [of _ isWhitespace p1] p1(1) by auto
  ultimately show ?thesis by blast
qed

lemma removeFences_front:
  assumes b: "b = CHR ''{'' \<or> b = CHR ''[''"
  shows "\<exists>p'. removeFences (p @ b # r) = p' @ removeFences (b # r) \<and> set p' \<subseteq> set p"
proof (induction p rule: length_induct)
  case (1 p)
  show ?case
  proof (cases p)
    case Nil
    then show ?thesis by simp
  next
    case (Cons c p1)
    show ?thesis
    proof (cases "stripPrefix fence (p @ b # r)")
      case None
      from 1 Cons obtain p'' where
        "removeFences (p1 @ b # r) = p'' @ removeFences (b # r)" "set p'' \<subseteq> set p1"
        by (metis length_Cons lessI)
      with None Cons have "removeFences (p @ b # r) = (c # p'') @ removeFences (b # r)"
          "set (c # p'') \<subseteq> set p"
        by auto
      then show ?thesis by blast
    next
      case (Some r0)
      from stripFence_front [OF Some b] obtain p2 where
        p2: "dropWhile isWhitespace r0 = p2 @ b # r" "length p2 < length p" "set p2 \<subseteq> set p"
        by blast
      from 1 p2(2) obtain p'' where
        "removeFences (p2 @ b # r) = p'' @ removeFences (b # r)" "set p'' \<subseteq> set p2"
        by blast
      with Some Cons p2 have "removeFences (p @ b # r) = p'' @ removeFences (b # r)"
          "set p'' \<subseteq> set p"
        by auto
      then show ?thesis by blast
    qed
  qed
qed

lemma closesAfterSpace_front:
  assumes "closesAfterSpace (p @ b # r)" "b = CHR ''{'' \<or> b = CHR ''[''"
  shows "\<exists>x p2. dropWhile isWhitespace p = x # p2 \<and>
           takeWhile isWhitespace (p @ b # r) = takeWhile isWhitespace p \<and>
           dropWhile isWhitespace (p @ b # r) = x # p2 @ b # r"
proof -
  have nb: "\<not> isWhitespace b" using assms(2) by (auto simp: isWhitespace_def)
  have d: "dropWhile isWhitespace (p @ b # r) = dropWhile isWhitespace p @ b # r"
    by (rule dropWhile_front [of isWhitespace b, OF nb])
  show ?thesis
  proof (cases "dropWhile isWhitespace p")
    case Nil
    with assms d show ?thesis by (auto simp: closesAfterSpace_def)
  next
    case (Cons x p2)
    then have "x \<in> set p" "\<not> isWhitespace x"
      using set_dropWhileD [of x isWhitespace p] hd_dropWhile [of isWhitespace p] by auto
    then have "takeWhile isWhitespace (p @ b # r) = takeWhile isWhitespace p"
      by (rule takeWhile_append1)
    with Cons d show ?thesis by simp
  qed
qed

lemma removeTrailingCommas_front:
  assumes b: "b = CHR ''{'' \<or> b = CHR ''[''"
  shows "\<exists>p'. removeTrailingCommas (p @ b # r) = p' @ removeTrailingCommas (b # r) \<and> set p' \<subseteq> set p"
proof (induction p rule: length_induct)
  case (1 p)
  show ?case
  proof (cases p)
    case Nil
    then show ?thesis by simp
  next
    case (Cons c p1)
    show ?thesis
    proof (cases "c = CHR '','' \<and> closesAfterSpace (p1 @ b # r)")
      case False
      from 1 Cons obtain p'' where
        "removeTrailingCommas (p1 @ b # r) = p'' @ removeTrailingCommas (b # r)" "set p'' \<subseteq> set p1"
        by (metis length_Cons lessI)
      with False Cons have "removeTrailingCommas (p @ b # r) = (c # p'') @ removeTrailingCommas (b # r)"
          "set (c # p'') \<subseteq> set p"
        by auto
      then show ?thesis by blast
    next
      case True
      from closesAfterSpace_front [OF conjunct2 [OF True] b] obtain x p2 where
        x: "dropWhile isWhitespace p1 = x # p2"
           "takeWhile isWhitespace (p1 @ b # r) = takeWhile isWhitespace p1"
           "dropWhile isWhitespace (p1 @ b # r) = x # p2 @ b # r"
        by blast
      have l: "length p2 < length p"
        using length_dropWhile_le [of isWhitespace p1] x(1) Cons by simp
      have s: "set p2 \<subseteq> set p1" "x \<in> set p1"
        using set_dropWhileD [of _ isWhitespace p1] x(1) by auto
      from 1 l obtain p'' where
        p'': "removeTrailingCommas (p2 @ b # r) = p'' @ removeTrailingCommas (b # r)" "set p'' \<subseteq> set p2"
        by blast
      have "removeTrailingCommas (p @ b # r) =
              (takeWhile isWhitespace p1 @ x # p'') @ removeTrailingCommas (b # r)"
        using True Cons x p''(1) by simp
      moreover have "set (takeWhile isWhitespace p1 @ x # p'') \<subseteq> set p"
        using s p''(2) Cons set_takeWhileD [of _ isWhitespace p1] by auto
      ultimately show ?thesis by blast
    qed
  qed
qed

lemma no_fence_prefix:
  assumes "\<not> includesStr J fence" "J \<noteq> []" "last J \<noteq> CHR 0x60"
  shows "\<not> prefix fence (J @ q)"
proof (cases J)
  case Nil
  with assms show ?thesis by simp
next
  case (Cons c J1)
  show ?thesis
  proof (cases J1)
    case Nil
    with Cons assms show ?thesis by (auto simp: fence_def)
  next
    case 2: (Cons d J2)
    show ?thesis
    proof (cases J2)
      case Nil
      with Cons 2 assms show ?thesis by (auto simp: fence_def)
    next
      case (Cons e J3)
      with \<open>J = c # J1\<close> 2 assms show ?thesis by (auto simp: fence_def)
    qed
  qed
qed

lemma removeJsonFences_core:
  "\<not> includesStr J fence \<Longrightarrow> J \<noteq> [] \<longrightarrow> last J \<noteq> CHR 0x60 \<Longrightarrow>
     removeJsonFences (J @ q) = J @ removeJsonFences q"
proof (induction J)
  case Nil
  show ?case by simp
next
  case (Cons c J1)
  from Cons.prems have "\<not> prefix fence ((c # J1) @ q)"
    by (intro no_fence_prefix) auto
  then have "matchJsonFence (c # J1 @ q) = None"
    by (simp add: matchJsonFence_def stripPrefix_def)
  moreover from Cons have "removeJsonFences (J1 @ q) = J1 @ removeJsonFences q"
    by (auto split: if_splits)
  ultimately show ?case by simp
qed

lemma removeFences_core:
  "\<not> includesStr J fence \<Longrightarrow> J \<noteq> [] \<longrightarrow> last J \<noteq> CHR 0x60 \<Longrightarrow>
     removeFences (J @ q) = J @ removeFences q"
proof (induction J)
  case Nil
  show ?case by simp
next
  case (Cons c J1)
  from Cons.prems have "\<not> prefix fence ((c # J1) @ q)"
    by (intro no_fence_prefix) auto
  then have "stripPrefix fence (c # J1 @ q) = None"
    by (simp add: stripPrefix_def)
  moreover from Cons have "removeFences (J1 @ q) = J1 @ removeFences q"
    by (auto split: if_splits)
  ultimately show ?case by simp
qed

lemma closesAfterSpace_append:
  assumes "J \<noteq> []" "\<not> isWhitespace (last J)"
  shows "closesAfterSpace (J @ q) = closesAfterSpace J"
proof -
  have "last J \<in> set J" using assms(1) by simp
  then have d: "dropWhile isWhitespace (J @ q) = dropWhile isWhitespace J @ q"
    using assms(2) by (rule dropWhile_append1)
  have "dropWhile isWhitespace J \<noteq> []"
    using \<open>last J \<in> set J\<close> assms(2) by (auto simp: dropWhile_eq_Nil_conv)
  then show ?thesis
    unfolding closesAfterSpace_def d by (cases "dropWhile isWhitespace J") auto
qed

lemma removeTrailingCommas_core:
  "commaSafe J \<Longrightarrow> J \<noteq> [] \<longrightarrow> \<not> isWhitespace (last J) \<and> last J \<noteq> CHR '','' \<Longrightarrow>
     removeTrailingCommas (J @ q) = J @ removeTrailingCommas q"
proof (induction J)
  case Nil
  show ?case by simp
next
  case (Cons c J1)
  have ih: "removeTrailingCommas (J1 @ q) = J1 @ removeTrailingCommas q"
    using Cons by (auto split: if_splits)
  have "\<not> (c = CHR '','' \<and> closesAfterSpace (J1 @ q))"
  proof (cases "J1 = []")
    case True
    with Cons.prems show ?thesis by auto
  next
    case False
    with Cons.prems have "closesAfterSpace (J1 @ q) = closesAfterSpace J1"
      by (intro closesAfterSpace_append) auto
    with Cons.prems show ?thesis by auto
  qed
  with ih show ?case by auto
qed

lemma jsonCore_split:
  assumes "jsonCore J"
  obtains b mid e where "J = b # mid @ [e]" "b = CHR ''{'' \<or> b = CHR ''[''"
    "e = CHR ''}'' \<or> e = CHR '']''"
proof -
  from assms obtain b J' where J: "J = b # J'" and b: "b = CHR ''{'' \<or> b = CHR ''[''"
    by (cases J) (auto simp: jsonCore_def)
  from assms have l: "last J = CHR ''}'' \<or> last J = CHR '']''" by (simp add: jsonCore_def)
  with J b have "J' \<noteq> []" by auto
  then obtain mid e where J': "J' = mid @ [e]" by (cases J' rule: rev_cases) auto
  with J l have "e = CHR ''}'' \<or> e = CHR '']''" by simp
  with J J' b that show thesis by blast
qed

lemma cleanText_wrapped:
  assumes core: "jsonCore J" and nf: "\<not> includesStr J fence" and cs: "commaSafe J"
    and nb: "noBracket p"
  shows "\<exists>p' q'. cleanText (p @ J @ q) = p' @ J @ q' \<and> noBracket p'"
proof -
  from core obtain b mid e where J: "J = b # mid @ [e]" and b: "b = CHR ''{'' \<or> b = CHR ''[''"
    and e: "e = CHR ''}'' \<or> e = CHR '']''"
    by (rule jsonCore_split)
  have wb: "\<not> isWhitespace b" and we: "\<not> isWhitespace e"
    using b e by (auto simp: isWhitespace_def)
  have lastJ: "J \<noteq> [] \<longrightarrow> last J \<noteq> CHR 0x60" "J \<noteq> [] \<longrightarrow> \<not> isWhitespace (last J) \<and> last J \<noteq> CHR '',''"
    using J e we by auto
  have Jq: "J @ x = b # mid @ e # x" for x by (simp add: J)
  from stripOpeningFence_front [OF b, of p "mid @ e # q"] obtain p1 where
    1: "stripOpeningFence (p @ J @ q) = p1 @ b # mid @ e # q" "set p1 \<subseteq> set p"
    by (auto simp: Jq)
  from stripClosingFence_back [OF e, of "p1 @ b # mid" q] obtain q2 where
    2: "stripClosingFence (p1 @ b # mid @ e # q) = p1 @ b # mid @ e # q2"
    by auto
  from trim_wrapped [OF wb we, of p1 mid q2] obtain p3 q3 where
    3: "trim (p1 @ b # mid @ e # q2) = p3 @ b # mid @ e # q3" "set p3 \<subseteq> set p1"
    by blast
  from removeJsonFences_front [OF b, of p3 "mid @ e # q3"] obtain p4 where
    4: "removeJsonFences (p3 @ b # mid @ e # q3) = p4 @ removeJsonFences (J @ q3)" "set p4 \<subseteq> set p3"
    by (auto simp: Jq)
  have c4: "removeJsonFences (J @ q3) = J @ removeJsonFences q3"
    by (rule removeJsonFences_core [OF nf lastJ(1)])
  from removeFences_front [OF b, of p4 "mid @ e # removeJsonFences q3"] obtain p5 where
    5: "removeFences (p4 @ J @ removeJsonFences q3) = p5 @ removeFences (J @ removeJsonFences q3)"
       "set p5 \<subseteq> set p4"
    by (auto simp: Jq)
  have c5: "removeFences (J @ removeJsonFences q3) = J @ removeFences (removeJsonFences q3)"
    by (rule removeFences_core [OF nf lastJ(1)])
  define q5 where "q5 = removeFences (removeJsonFences q3)"
  from removeTrailingCommas_front [OF b, of p5 "mid @ e # q5"] obtain p6 where
    6: "removeTrailingCommas (p5 @ J @ q5) = p6 @ removeTrailingCommas (J @ q5)" "set p6 \<subseteq> set p5"
    by (auto simp: Jq)
  have c6: "removeTrailingCommas (J @ q5) = J @ removeTrailingCommas q5"
    by (rule removeTrailingCommas_core [OF cs lastJ(2)])
  have "cleanText (p @ J @ q) = p6 @ J @ removeTrailingCommas q5"
    unfolding cleanText_def 1(1) 2 3(1) 4(1) c4 5(1) c5 q5_def [symmetric] 6(1) c6 ..
  moreover have "set p6 \<subseteq> set p"
    using 1(2) 3(2) 4(2) 5(2) 6(2) by blast
  then have "noBracket p6" by (rule noBracket_subset [OF nb])
  ultimately show ?thesis by blast
qed

lemma indexOf_append:
  "x \<notin> set p \<Longrightarrow>
     indexOf x (p @ r) = (case indexOf x r of None \<Rightarrow> None | Some k \<Rightarrow> Some (length p + k))"
  by (induction p) (auto split: option.splits)

lemma startIndex_wrapped:
  assumes "noBracket p" "b = CHR ''{'' \<or> b = CHR ''[''"
  shows "(indexOf (CHR ''{'') (p @ b # r) \<noteq> None \<or> indexOf (CHR ''['') (p @ b # r) \<noteq> None) \<and>
         (case indexOf (CHR ''{'') (p @ b # r) of
            None \<Rightarrow> the (indexOf (CHR ''['') (p @ b # r))
          | Some i \<Rightarrow> (case indexOf (CHR ''['') (p @ b # r) of None \<Rightarrow> i | Some j \<Rightarrow> min i j))
         = length p"
proof -
  from assms(1) have n: "CHR ''{'' \<notin> set p" "CHR ''['' \<notin> set p" by (auto simp: noBracket_def)
  from assms(2) show ?thesis
  proof
    assume "b = CHR ''{''"
    then show ?thesis
      by (cases "indexOf (CHR ''['') r") (simp_all add: indexOf_append [OF n(1)] indexOf_append [OF n(2)])
  next
    assume "b = CHR ''[''"
    then show ?thesis
      by (cases "indexOf (CHR ''{'') r") (simp_all add: indexOf_append [OF n(1)] indexOf_append [OF n(2)])
  qed
qed

text \<open>
  Claim C5, as amended. Let \<open>J\<close> be a text that \<open>JSON.parse\<close> accepts, an object or array
  with no white space around it, holding no three backticks in a row and no comma that
  a closing bracket follows; let the text in front of it hold no \<open>{\<close> and no \<open>[\<close>, the
  text behind it be anything (prose and code fences alike), and the whole not be valid
  JSON as it stands. Then \<open>extractJson\<close> returns \<open>J\<close> itself, which parses to the value of
  \<open>J\<close>.
\<close>

theorem extractJson_round_trip:
  assumes "jsonParses J" and "jsonCore J"
    and "\<not> includesStr J fence" and "commaSafe J"
    and "noBracket pre"
    and "\<not> jsonParses (pre @ J @ post)"
  shows "extractJson (pre @ J @ post) = Inr J"
proof -
  from assms(2) obtain b mid e where J: "J = b # mid @ [e]" and b: "b = CHR ''{'' \<or> b = CHR ''[''"
    and e: "e = CHR ''}'' \<or> e = CHR '']''"
    by (rule jsonCore_split)
  have wb: "\<not> isWhitespace b" and we: "\<not> isWhitespace e"
    using b e by (auto simp: isWhitespace_def)
  from trim_wrapped [OF wb we, of pre mid post] have t: "trim (pre @ J @ post) \<noteq> []"
    by (auto simp: J)
  from cleanText_wrapped [OF assms(2,3,4,5), of post] obtain p' q' where
    c: "cleanText (pre @ J @ post) = p' @ J @ q'" and nb: "noBracket p'"
    by blast
  have Jq: "p' @ J @ q' = p' @ b # mid @ e # q'" by (simp add: J)
  from startIndex_wrapped [OF nb b, of "mid @ e # q'"]
  have i: "indexOf (CHR ''{'') (p' @ J @ q') \<noteq> None \<or> indexOf (CHR ''['') (p' @ J @ q') \<noteq> None"
    and s: "(case indexOf (CHR ''{'') (p' @ J @ q') of
            None \<Rightarrow> the (indexOf (CHR ''['') (p' @ J @ q'))
          | Some i \<Rightarrow> (case indexOf (CHR ''['') (p' @ J @ q') of None \<Rightarrow> i | Some j \<Rightarrow> min i j))
         = length p'"
    unfolding Jq by simp_all
  have d: "drop (length p') (p' @ J @ q') = J @ q'" by simp
  have cand: "jsonCandidate (J @ q') = J" by (rule jsonCandidate_exact [OF assms(1,2)])
  show ?thesis
    using t assms(6) assms(1) i
    by (simp add: extractJson_def Let_def c s d cand del: append_eq_append_conv)
qed

theorem extractJson_round_trip_witness:
  \<open>extractJson
     ((''Sure! Here it is:'' @ [CHR 0x0A] @ fence @ ''json'' @ [CHR 0x0A]) @
      ''{"a": [1, 2], "b": "x"}'' @
      ([CHR 0x0A] @ fence @ '' Hope it helps {not json}''))
   = Inr ''{"a": [1, 2], "b": "x"}''\<close>
proof -
  let ?J = \<open>''{"a": [1, 2], "b": "x"}''\<close>
  let ?pre = "''Sure! Here it is:'' @ [CHR 0x0A] @ fence @ ''json'' @ [CHR 0x0A]"
  let ?post = "[CHR 0x0A] @ fence @ '' Hope it helps {not json}''"
  have 1: "jsonParses ?J" by code_simp
  have 2: "jsonCore ?J" by (simp add: jsonCore_def)
  have 3: "\<not> includesStr ?J fence" by code_simp
  have 4: "commaSafe ?J" by code_simp
  have 5: "noBracket ?pre" by (simp add: noBracket_def fence_def)
  have 6: "\<not> jsonParses (?pre @ ?J @ ?post)" by code_simp
  show ?thesis by (rule extractJson_round_trip [OF 1 2 3 4 5 6])
qed

text \<open>
  Why the conditions are there. A comma in front of a bracket inside a string literal
  is removed with the others, which changes the string; and a text that is valid JSON as
  it stands is returned whole, though it may be a string literal around \<open>J\<close>.
\<close>

theorem extractJson_limits:
  \<open>extractJson (fence @ ''{"a":",]"}'' @ fence) = Inr ''{"a":"]"}'' \<and>
   extractJson ''"[1]"'' = Inr ''"[1]"''\<close>
  by code_simp

end
